theory Spec2Isabelle
  imports Main
begin

section \<open>The knit dependency-injection container (src/knit-di/src/container.ts)\<close>

subsection \<open>Data model\<close>

text \<open>
  A constructor function and a \<open>Container\<close> object are known by their identity; both are
  numbered.
\<close>

type_synonym ctor = nat
type_synonym cref = nat

text \<open>
  Modelled from the spec: the type \<open>InjectionToken\<close> of \<open>./types\<close>, which is not among
  the sources. A token is either a constructible type, used as its own key, or a named
  token, a string.
\<close>

datatype token = TypeTok ctor | NamedTok string

text \<open>
  Modelled from the spec: the enumeration \<open>Scope\<close> of \<open>./types\<close>, which is not among the
  sources; \<open>container.ts\<close> uses its members \<open>Scope.Singleton\<close> and \<open>Scope.Prototype\<close>.
\<close>

datatype scope = Singleton | Prototype

text \<open>
  The values that flow through the container are object references and \<open>undefined\<close>.
  An object on the heap records the class it was built from and the argument list its
  constructor was invoked with; its address is its index in the heap.
\<close>

datatype val = Ref nat | Undefined

datatype obj = Obj ctor "val list"

text \<open>
  Modelled from the spec: the type \<open>Provider\<close> of \<open>./types\<close>, which is not among the
  sources: a factory of no argument, called as \<open>provider()\<close> in \<open>container.ts\<close>.
  The closures the container builds are
  \<open>() => this.create(type)\<close> of \<open>register\<close> (here \<open>CreateClosure this type\<close>) and the
  closure returned by \<open>singletonProvider\<close> (here \<open>SingletonClosure this type provider\<close>);
  both capture \<open>this\<close>. The closures a caller supplies are a factory of fresh objects,
  \<open>() => new K()\<close>, and a closure that returns a captured value, \<open>() => v\<close>.
\<close>

datatype provider =
    Fresh ctor
  | Const val
  | CreateClosure cref ctor
  | SingletonClosure cref token provider

text \<open>
  What the reflection metadata and the function object hold for one constructor:
  \<open>Function.name\<close>, the text \<open>String(ctor)\<close> gives, the array under
  \<open>design:paramtypes\<close> (\<open>None\<close> when no metadata was emitted; an element \<open>None\<close> is a
  hole of the array) and the object under \<open>TOKEN_KEY\<close>.
\<close>

text \<open>
  Modelled from the spec: the type \<open>TokenRegistry\<close> of \<open>./types\<close> and the key
  \<open>TOKEN_KEY\<close> of \<open>./decorators\<close>, which are not among the sources: a possibly sparse
  mapping from parameter position to explicit token. It is the field \<open>injection_tokens\<close>,
  the list of the keys of the object, read as numbers as \<open>+paramIdx\<close> does, with their
  tokens in the order of \<open>Object.keys\<close>.
\<close>

record class_info =
  cname :: string
  csource :: string
  paramtypes :: "token option list option"
  injection_tokens :: "(int \<times> token) list option"

record container =
  instances :: "token \<rightharpoonup> val"
  dependencies :: "token \<rightharpoonup> provider"

text \<open>
  The whole state: the \<open>Container\<close> objects that exist (\<open>ncontainers\<close> of them), the
  metadata of the constructors, the heap of constructed objects, and the list of the
  provider closures invoked so far, oldest first (a log the source does not keep: it
  makes the number of invocations visible).
\<close>

record world =
  containers :: "cref \<Rightarrow> container"
  ncontainers :: nat
  classes :: "ctor \<Rightarrow> class_info"
  heap :: "obj list"
  invoked :: "provider list"

datatype error = Error string

text \<open>
  A call returns a value, throws (the state reached at the throw stays), or exhausts the
  call stack. The first argument of the recursive functions below is the number of stack
  frames left.
\<close>

datatype 'a result = Ok 'a world | Throw error world | Diverge

fun final :: "'a result \<Rightarrow> world option" where
  "final (Ok v w) = Some w"
| "final (Throw e w) = Some w"
| "final Diverge = None"

subsection \<open>Construction of containers\<close>

definition empty_container :: container where
  "empty_container = \<lparr>instances = Map.empty, dependencies = Map.empty\<rparr>"

text \<open>\<open>new Container()\<close>: a new object whose two maps are new and empty.\<close>

definition newContainer :: "world \<Rightarrow> cref \<times> world" where
  "newContainer w =
     (ncontainers w,
      w\<lparr>containers := (containers w)(ncontainers w := empty_container),
        ncontainers := Suc (ncontainers w)\<rparr>)"

text \<open>The static field \<open>instance\<close> is the first container made.\<close>

definition getInstance :: "world \<Rightarrow> cref" where
  "getInstance w = 0"

definition initial_world :: "(ctor \<Rightarrow> class_info) \<Rightarrow> world" where
  "initial_world cls =
     \<lparr>containers = (\<lambda>_. empty_container), ncontainers = 1, classes = cls,
      heap = [], invoked = []\<rparr>"

subsection \<open>Map operations on one container\<close>

definition set_instance :: "cref \<Rightarrow> token \<Rightarrow> val \<Rightarrow> world \<Rightarrow> world" where
  "set_instance this type v w =
     w\<lparr>containers := (containers w)
          (this := (containers w this)\<lparr>instances := (instances (containers w this))(type \<mapsto> v)\<rparr>)\<rparr>"

definition set_dependency :: "cref \<Rightarrow> token \<Rightarrow> provider \<Rightarrow> world \<Rightarrow> world" where
  "set_dependency this type p w =
     w\<lparr>containers := (containers w)
          (this := (containers w this)\<lparr>dependencies := (dependencies (containers w this))(type \<mapsto> p)\<rparr>)\<rparr>"

text \<open>\<open>Map.get\<close> gives \<open>undefined\<close> for an absent key.\<close>

definition get_instance :: "cref \<Rightarrow> token \<Rightarrow> world \<Rightarrow> val" where
  "get_instance this type w =
     (case instances (containers w this) type of None \<Rightarrow> Undefined | Some v \<Rightarrow> v)"

subsection \<open>Error messages\<close>

text \<open>\<open>type.name\<close> in a template: a string has no property \<open>name\<close>.\<close>

definition name_of :: "world \<Rightarrow> token \<Rightarrow> string" where
  "name_of w type = (case type of TypeTok k \<Rightarrow> cname (classes w k) | NamedTok s \<Rightarrow> ''undefined'')"

text \<open>\<open>type\<close> itself in a template.\<close>

definition string_of :: "world \<Rightarrow> token \<Rightarrow> string" where
  "string_of w type = (case type of TypeTok k \<Rightarrow> csource (classes w k) | NamedTok s \<Rightarrow> s)"

text \<open>The error of \<open>resolve\<close> (line 23) and the error of \<open>provide\<close> (line 39).\<close>

definition UnregisteredTokenError :: "world \<Rightarrow> token \<Rightarrow> error" where
  "UnregisteredTokenError w type = Error (''Error resolving type '' @ name_of w type)"

definition DuplicateRegistrationError :: "world \<Rightarrow> token \<Rightarrow> error" where
  "DuplicateRegistrationError w type =
     Error (''Type '' @ string_of w type @ '' already has a registered provider'')"

subsection \<open>getParams\<close>

text \<open>
  The array indices of JavaScript are the integers from 0 to \<open>2^32 - 2\<close>; a key that is
  none of them, a negative number or a number from \<open>2^32 - 1\<close> on, names an ordinary
  property.
\<close>

definition is_array_index :: "int \<Rightarrow> bool" where
  "is_array_index k = (0 \<le> k \<and> k \<le> 4294967294)"

text \<open>
  \<open>params[k] = v\<close> on a JavaScript array: an ordinary property is no element and leaves
  the array and its length as they are; an index inside the array replaces the element,
  and an index at or beyond the length makes the array longer, with holes before the new
  element.
\<close>

definition array_set :: "token option list \<Rightarrow> int \<Rightarrow> token \<Rightarrow> token option list" where
  "array_set params k v =
     (if \<not> is_array_index k then params
      else if nat k < length params then params[nat k := Some v]
      else params @ replicate (nat k - length params) None @ [Some v])"

definition apply_tokens :: "token option list \<Rightarrow> (int \<times> token) list \<Rightarrow> token option list" where
  "apply_tokens params toks = foldl (\<lambda>ps (k, v). array_set ps k v) params toks"

text \<open>
  \<open>getParams\<close> writes into the array the metadata holds, when there is one, so the
  metadata changes with it; without metadata the array is a new, empty one.
\<close>

definition getParams :: "ctor \<Rightarrow> world \<Rightarrow> token option list \<times> world" where
  "getParams c w =
     (let injectionTokens = (case injection_tokens (classes w c) of None \<Rightarrow> [] | Some ts \<Rightarrow> ts)
      in case paramtypes (classes w c) of
           None \<Rightarrow> (apply_tokens [] injectionTokens, w)
         | Some ps \<Rightarrow>
             (let params = apply_tokens ps injectionTokens
              in (params, w\<lparr>classes := (classes w)(c := (classes w c)\<lparr>paramtypes := Some params\<rparr>)\<rparr>)))"

subsection \<open>resolve, the provider closures, create\<close>

definition singletonProvider :: "cref \<Rightarrow> token \<Rightarrow> provider \<Rightarrow> provider" where
  "singletonProvider this type provider = SingletonClosure this type provider"

definition note_call :: "provider \<Rightarrow> world \<Rightarrow> world" where
  "note_call p w = w\<lparr>invoked := invoked w @ [p]\<rparr>"

definition alloc :: "obj \<Rightarrow> world \<Rightarrow> val \<times> world" where
  "alloc ob w = (Ref (length (heap w)), w\<lparr>heap := heap w @ [ob]\<rparr>)"

text \<open>
  \<open>resolve\<close> is lines 20 to 26; \<open>call p\<close> is the body of the closure \<open>p\<close>, lines 29 to 34
  for the closure of \<open>singletonProvider\<close>; \<open>create\<close> is lines 55 to 60, and
  \<open>resolve_all\<close> is its \<open>params.map(dependency => this.resolve(dependency))\<close>, spread into
  the arguments: \<open>map\<close> leaves a hole alone and the spread reads it as \<open>undefined\<close>.
\<close>

fun resolve :: "nat \<Rightarrow> cref \<Rightarrow> token \<Rightarrow> world \<Rightarrow> val result"
  and call :: "nat \<Rightarrow> provider \<Rightarrow> world \<Rightarrow> val result"
  and create :: "nat \<Rightarrow> cref \<Rightarrow> ctor \<Rightarrow> world \<Rightarrow> val result"
  and resolve_all :: "nat \<Rightarrow> cref \<Rightarrow> token option list \<Rightarrow> world \<Rightarrow> val list result"
where
  "resolve 0 this type w = Diverge"
| "resolve (Suc n) this type w =
     (case dependencies (containers w this) type of
        None \<Rightarrow> Throw (UnregisteredTokenError w type) w
      | Some provider \<Rightarrow> call n provider w)"
| "call 0 p w = Diverge"
| "call (Suc n) (Fresh k) w =
     (case alloc (Obj k []) (note_call (Fresh k) w) of (v, w') \<Rightarrow> Ok v w')"
| "call (Suc n) (Const v) w = Ok v (note_call (Const v) w)"
| "call (Suc n) (CreateClosure this type) w =
     create n this type (note_call (CreateClosure this type) w)"
| "call (Suc n) (SingletonClosure this type provider) w =
     (let w0 = note_call (SingletonClosure this type provider) w
      in if instances (containers w0 this) type = None
         then (case call n provider w0 of
                 Ok v w1 \<Rightarrow>
                   (let w2 = set_instance this type v w1 in Ok (get_instance this type w2) w2)
               | Throw e w1 \<Rightarrow> Throw e w1
               | Diverge \<Rightarrow> Diverge)
         else Ok (get_instance this type w0) w0)"
| "create 0 this c w = Diverge"
| "create (Suc n) this c w =
     (case getParams c w of
        (params, w1) \<Rightarrow>
          (case resolve_all n this params w1 of
             Ok args w2 \<Rightarrow> (case alloc (Obj c args) w2 of (v, w3) \<Rightarrow> Ok v w3)
           | Throw e w2 \<Rightarrow> Throw e w2
           | Diverge \<Rightarrow> Diverge))"
| "resolve_all n this [] w = Ok [] w"
| "resolve_all n this (None # params) w =
     (case resolve_all n this params w of
        Ok args w1 \<Rightarrow> Ok (Undefined # args) w1
      | Throw e w1 \<Rightarrow> Throw e w1
      | Diverge \<Rightarrow> Diverge)"
| "resolve_all 0 this (Some dependency # params) w = Diverge"
| "resolve_all (Suc n) this (Some dependency # params) w =
     (case resolve n this dependency w of
        Ok v w1 \<Rightarrow>
          (case resolve_all (Suc n) this params w1 of
             Ok args w2 \<Rightarrow> Ok (v # args) w2
           | Throw e w2 \<Rightarrow> Throw e w2
           | Diverge \<Rightarrow> Diverge)
      | Throw e w1 \<Rightarrow> Throw e w1
      | Diverge \<Rightarrow> Diverge)"

subsection \<open>provide, register\<close>

text \<open>The parameter \<open>scope\<close> of \<open>provide\<close> has the default \<open>Scope.Singleton\<close>.\<close>

definition scope_or_default :: "scope option \<Rightarrow> scope" where
  "scope_or_default s = (case s of None \<Rightarrow> Singleton | Some x \<Rightarrow> x)"

definition provide :: "cref \<Rightarrow> token \<Rightarrow> provider \<Rightarrow> scope option \<Rightarrow> world \<Rightarrow> unit result" where
  "provide this type provider scope w =
     (if dependencies (containers w this) type \<noteq> None
      then Throw (DuplicateRegistrationError w type) w
      else (case scope_or_default scope of
              Singleton \<Rightarrow> Ok () (set_dependency this type (singletonProvider this type provider) w)
            | Prototype \<Rightarrow> Ok () (set_dependency this type provider w)))"

definition register :: "cref \<Rightarrow> ctor \<Rightarrow> scope \<Rightarrow> world \<Rightarrow> unit result" where
  "register this type scope w =
     provide this (TypeTok type) (CreateClosure this type) (Some scope) w"

subsection \<open>Vocabulary of the properties\<close>

text \<open>The containers a closure captures.\<close>

fun captured :: "provider \<Rightarrow> cref set" where
  "captured (Fresh k) = {}"
| "captured (Const v) = {}"
| "captured (CreateClosure this type) = {this}"
| "captured (SingletonClosure this type provider) = insert this (captured provider)"

text \<open>The registries of the containers in \<open>S\<close> hold closures over containers in \<open>S\<close> only.\<close>

definition closed_under :: "cref set \<Rightarrow> world \<Rightarrow> bool" where
  "closed_under S w =
     (\<forall>c \<in> S. \<forall>t p. dependencies (containers w c) t = Some p \<longrightarrow> captured p \<subseteq> S)"

text \<open>
  What a call may change, when it runs inside the containers of \<open>S\<close>: no registry, no
  cache entry that exists, no container outside \<open>S\<close>, no name, text or token table of a
  constructor; the heap and the log only grow at the end.
\<close>

definition evolves :: "cref set \<Rightarrow> world \<Rightarrow> world \<Rightarrow> bool" where
  "evolves S w w' =
     ((\<forall>c. dependencies (containers w' c) = dependencies (containers w c)) \<and>
      (\<forall>c t v. instances (containers w c) t = Some v \<longrightarrow> instances (containers w' c) t = Some v) \<and>
      (\<forall>c. c \<notin> S \<longrightarrow> containers w' c = containers w c) \<and>
      ncontainers w' = ncontainers w \<and>
      (\<forall>k. cname (classes w' k) = cname (classes w k) \<and>
           csource (classes w' k) = csource (classes w k) \<and>
           injection_tokens (classes w' k) = injection_tokens (classes w k)) \<and>
      (\<exists>os. heap w' = heap w @ os) \<and>
      (\<exists>ps. invoked w' = invoked w @ ps))"

text \<open>The providers that make a new object at each invocation.\<close>

fun produces_fresh :: "provider \<Rightarrow> bool" where
  "produces_fresh (Fresh k) = True"
| "produces_fresh (CreateClosure this type) = True"
| "produces_fresh p = False"

text \<open>
  The two inputs of \<open>getParams\<close>: the declared parameter array, and the tokens bound to
  parameter positions.
\<close>
definition declared :: "world \<Rightarrow> ctor \<Rightarrow> token option list" where
  "declared w c = (case paramtypes (classes w c) of None \<Rightarrow> [] | Some ps \<Rightarrow> ps)"

definition bound_tokens :: "world \<Rightarrow> ctor \<Rightarrow> (int \<times> token) list" where
  "bound_tokens w c = (case injection_tokens (classes w c) of None \<Rightarrow> [] | Some ts \<Rightarrow> ts)"

text \<open>
  The state in which the containers outside \<open>S\<close> are those of \<open>cs\<close>, all else being as in
  \<open>w\<close>; and a result with its state changed by \<open>f\<close>.
\<close>

definition graft :: "cref set \<Rightarrow> (cref \<Rightarrow> container) \<Rightarrow> world \<Rightarrow> world" where
  "graft S cs w = w\<lparr>containers := override_on cs (containers w) S\<rparr>"

fun map_world :: "(world \<Rightarrow> world) \<Rightarrow> 'a result \<Rightarrow> 'a result" where
  "map_world f (Ok v w) = Ok v (f w)"
| "map_world f (Throw e w) = Throw e (f w)"
| "map_world f Diverge = Diverge"


text \<open>The parts of a result.\<close>

fun returned :: "'a result \<Rightarrow> 'a option" where
  "returned (Ok v w) = Some v"
| "returned (Throw e w) = None"
| "returned Diverge = None"

fun thrown :: "'a result \<Rightarrow> error option" where
  "thrown (Ok v w) = None"
| "thrown (Throw e w) = Some e"
| "thrown Diverge = None"

text \<open>
  A program is a list of requests to the containers that exist: \<open>resolve\<close> (with the
  stack frames it has), \<open>provide\<close>, \<open>register\<close> and \<open>newContainer\<close>. It goes on after a
  request that throws, from the state the throw has left; it has no state after a
  request that does not return or that names a container that does not exist.
\<close>

datatype request =
    Resolve nat cref token
  | Provide cref token provider "scope option"
  | Register cref ctor scope
  | NewContainer

fun perform :: "request \<Rightarrow> world \<Rightarrow> world option" where
  "perform (Resolve n c t) w = (if c < ncontainers w then final (resolve n c t w) else None)"
| "perform (Provide c t p s) w = (if c < ncontainers w then final (provide c t p s w) else None)"
| "perform (Register c k sc) w = (if c < ncontainers w then final (register c k sc w) else None)"
| "perform NewContainer w = Some (snd (newContainer w))"

fun run :: "request list \<Rightarrow> world \<Rightarrow> world option" where
  "run [] w = Some w"
| "run (r # rs) w = (case perform r w of None \<Rightarrow> None | Some w' \<Rightarrow> run rs w')"

text \<open>What stays in the containers that exist: the registrations and the cached instances.\<close>

definition later :: "world \<Rightarrow> world \<Rightarrow> bool" where
  "later w u =
     (ncontainers w \<le> ncontainers u \<and>
      (\<forall>c < ncontainers w. \<forall>t.
         (\<forall>p. dependencies (containers w c) t = Some p
               \<longrightarrow> dependencies (containers u c) t = Some p) \<and>
         (\<forall>v. instances (containers w c) t = Some v
               \<longrightarrow> instances (containers u c) t = Some v)))"

subsection \<open>A program to run the container on\<close>

text \<open>
  Constructor 0 is \<open>EmailService\<close>, of no parameter; constructor 1 is
  \<open>MyApplication(emailService: EmailService)\<close>; constructor 2 is \<open>Client\<close>, whose one
  parameter is bound to the token \<open>"named:A"\<close>; constructor 3 is \<open>Report\<close>, of one
  parameter, with a token bound at index 2; constructor 4 is \<open>Probe\<close>, of one
  parameter, with a token under the key \<open>-1\<close>; constructor 5 is \<open>Mailer\<close>, for which
  no \<open>design:paramtypes\<close> was emitted, with a token bound at index 0; constructor 6 is
  \<open>Archive\<close>, of one parameter, with a token under the key \<open>4294967295\<close>.
\<close>

definition no_class :: class_info where
  "no_class = \<lparr>cname = [], csource = [], paramtypes = None, injection_tokens = None\<rparr>"

definition demo_classes :: "ctor \<Rightarrow> class_info" where
  "demo_classes =
     (\<lambda>_. no_class)
       (0 := \<lparr>cname = ''EmailService'', csource = ''class EmailService { }'',
              paramtypes = None, injection_tokens = None\<rparr>,
        1 := \<lparr>cname = ''MyApplication'', csource = ''class MyApplication { }'',
              paramtypes = Some [Some (TypeTok 0)], injection_tokens = None\<rparr>,
        2 := \<lparr>cname = ''Client'', csource = ''class Client { }'',
              paramtypes = Some [Some (TypeTok 0)],
              injection_tokens = Some [(0, NamedTok ''named:A'')]\<rparr>,
        3 := \<lparr>cname = ''Report'', csource = ''class Report { }'',
              paramtypes = Some [Some (TypeTok 0)],
              injection_tokens = Some [(2, NamedTok ''named:A'')]\<rparr>,
        4 := \<lparr>cname = ''Probe'', csource = ''class Probe { }'',
              paramtypes = Some [Some (TypeTok 0)],
              injection_tokens = Some [(- 1, NamedTok ''named:A'')]\<rparr>,
        5 := \<lparr>cname = ''Mailer'', csource = ''class Mailer { }'',
              paramtypes = None,
              injection_tokens = Some [(0, NamedTok ''named:A'')]\<rparr>,
        6 := \<lparr>cname = ''Archive'', csource = ''class Archive { }'',
              paramtypes = Some [Some (TypeTok 0)],
              injection_tokens = Some [(4294967295, NamedTok ''named:A'')]\<rparr>)"

definition demo_world :: world where
  "demo_world = initial_world demo_classes"

text \<open>The state a call leaves, also when it throws; \<open>demo_world\<close> if it does not return.\<close>

definition after :: "'a result \<Rightarrow> world" where
  "after r = (case final r of None \<Rightarrow> demo_world | Some w \<Rightarrow> w)"





text \<open>
  Two new containers, 1 and 2, beside the default one, and \<open>EmailService\<close> registered with
  scope \<open>Singleton\<close> in both.
\<close>

definition demo_two :: world where
  "demo_two =
     after (register 2 0 Singleton
       (after (register 1 0 Singleton
          (snd (newContainer (snd (newContainer demo_world)))))))"

section \<open>Properties\<close>

subsection \<open>What every call preserves\<close>

lemma preserve_general:
  assumes refl: "\<And>w. R w w"
    and trans: "\<And>a b c. R a b \<Longrightarrow> R b c \<Longrightarrow> R a c"
    and nt: "\<And>p w. R w (note_call p w)"
    and al: "\<And>ob w. R w (snd (alloc ob w))"
    and gp: "\<And>c w. R w (snd (getParams c w))"
    and si: "\<And>w0 w1 this type v. this \<in> S \<Longrightarrow> R w0 w1
                \<Longrightarrow> instances (containers w0 this) type = None
                \<Longrightarrow> R w0 (set_instance this type v w1)"
    and cl: "\<And>w w'. R w w' \<Longrightarrow> closed_under S w \<Longrightarrow> closed_under S w'"
  shows "closed_under S w \<Longrightarrow> this \<in> S \<Longrightarrow> final (resolve n this t w) = Some w' \<Longrightarrow> R w w'"
    and "closed_under S w \<Longrightarrow> captured p \<subseteq> S \<Longrightarrow> final (call n p w) = Some w' \<Longrightarrow> R w w'"
    and "closed_under S w \<Longrightarrow> this \<in> S \<Longrightarrow> final (create n this c w) = Some w' \<Longrightarrow> R w w'"
    and "closed_under S w \<Longrightarrow> this \<in> S \<Longrightarrow> final (resolve_all n this ps w) = Some w' \<Longrightarrow> R w w'"
proof (induction n this t w and n p w and n this c w and n this ps w
        arbitrary: w' and w' and w' and w' rule: resolve_call_create_resolve_all.induct)
  case (1 this type w)
  then show ?case by simp
next
  case (2 n this type w)
  show ?case
  proof (cases "dependencies (containers w this) type")
    case None
    then show ?thesis using "2.prems" by (simp add: refl)
  next
    case (Some q)
    then have "captured q \<subseteq> S" using "2.prems"(1,2) by (auto simp: closed_under_def)
    then show ?thesis using "2.IH"[OF Some "2.prems"(1)] "2.prems"(3) Some by simp
  qed
next
  case (3 p w)
  then show ?case by simp
next
  case (4 n k w)
  have "R w (snd (alloc (Obj k []) (note_call (Fresh k) w)))"
    by (rule trans[OF nt al])
  with 4 show ?case by (auto split: prod.splits)
next
  case (5 n v w)
  then show ?case using nt by auto
next
  case (6 n this type w)
  have "closed_under S (note_call (CreateClosure this type) w)"
    using cl[OF nt "6.prems"(1)] .
  then have "R (note_call (CreateClosure this type) w) w'"
    using "6.IH" "6.prems" by simp
  then show ?case using trans[OF nt] by blast
next
  case (7 n this type provider w)
  define w0 where "w0 = note_call (SingletonClosure this type provider) w"
  have r0: "R w w0" unfolding w0_def by (rule nt)
  have c0: "closed_under S w0" using cl[OF r0 "7.prems"(1)] .
  have inS: "this \<in> S" and sub: "captured provider \<subseteq> S" using "7.prems"(2) by auto
  note fin = "7.prems"(3)
  show ?case
  proof (cases "instances (containers w0 this) type = None")
    case True
    note unc = this
    show ?thesis
    proof (cases "call n provider w0")
      case (Ok v w1)
      have "R w0 w1" using "7.IH"[OF w0_def unc c0 sub] Ok by simp
      then have "R w0 (set_instance this type v w1)" using unc si[OF inS] by blast
      moreover have "w' = set_instance this type v w1"
        using fin unc Ok by (simp add: w0_def[symmetric] Let_def)
      ultimately show ?thesis using r0 trans by blast
    next
      case (Throw e w1)
      have "R w0 w1" using "7.IH"[OF w0_def unc c0 sub] Throw by simp
      moreover have "w' = w1"
        using fin unc Throw by (simp add: w0_def[symmetric] Let_def)
      ultimately show ?thesis using r0 trans by blast
    next
      case Diverge
      then show ?thesis using fin unc by (simp add: w0_def[symmetric] Let_def)
    qed
  next
    case False
    then have "w' = w0" using fin by (auto simp add: w0_def[symmetric] Let_def)
    then show ?thesis using r0 by simp
  qed
next
  case (8 this c w)
  then show ?case by simp
next
  case (9 n this c w)
  obtain params w1 where g: "getParams c w = (params, w1)" by (cases "getParams c w")
  have r1: "R w w1" using gp[of w c] g by simp
  have c1: "closed_under S w1" using cl[OF r1 "9.prems"(1)] .
  note ih = "9.IH"[OF g[symmetric] c1 "9.prems"(2)]
  note fin = "9.prems"(3)
  show ?case
  proof (cases "resolve_all n this params w1")
    case (Ok args w2)
    have "R w1 w2" using ih Ok by simp
    moreover have "w' = snd (alloc (Obj c args) w2)"
      using fin g Ok by (auto split: prod.splits)
    ultimately show ?thesis using r1 al trans by blast
  next
    case (Throw e w2)
    have "R w1 w2" using ih Throw by simp
    moreover have "w' = w2" using fin g Throw by simp
    ultimately show ?thesis using r1 trans by blast
  next
    case Diverge
    then show ?thesis using fin g by simp
  qed
next
  case (10 n this w)
  then show ?case by (simp add: refl)
next
  case (11 n this params w)
  then show ?case by (auto split: result.splits)
next
  case (12 this dependency params w)
  then show ?case by simp
next
  case (13 n this dependency params w)
  note fin = "13.prems"(3)
  show ?case
  proof (cases "resolve n this dependency w")
    case (Ok v w1)
    note ok1 = this
    have r1: "R w w1" using "13.IH"(1)[OF "13.prems"(1,2)] ok1 by simp
    have c1: "closed_under S w1" using cl[OF r1 "13.prems"(1)] .
    note ih = "13.IH"(2)[OF ok1 c1 "13.prems"(2)]
    show ?thesis
    proof (cases "resolve_all (Suc n) this params w1")
      case (Ok args w2)
      have "R w1 w2" using ih Ok by simp
      moreover have "w' = w2" using fin ok1 Ok by simp
      ultimately show ?thesis using r1 trans by blast
    next
      case (Throw e w2)
      have "R w1 w2" using ih Throw by simp
      moreover have "w' = w2" using fin ok1 Throw by simp
      ultimately show ?thesis using r1 trans by blast
    next
      case Diverge
      then show ?thesis using fin ok1 by simp
    qed
  next
    case (Throw e w1)
    then show ?thesis using "13.IH"(1)[OF "13.prems"(1,2)] fin by simp
  next
    case Diverge
    then show ?thesis using fin by simp
  qed
qed

lemma evolves_refl: "evolves S w w"
  by (simp add: evolves_def)

lemma evolves_trans: "evolves S a b \<Longrightarrow> evolves S b c \<Longrightarrow> evolves S a c"
  unfolding evolves_def by (elim conjE exE, intro conjI) auto

lemma evolves_note_call: "evolves S w (note_call p w)"
  by (simp add: evolves_def note_call_def)

lemma evolves_alloc: "evolves S w (snd (alloc ob w))"
  by (simp add: evolves_def alloc_def)

lemma evolves_getParams: "evolves S w (snd (getParams c w))"
  by (simp add: evolves_def getParams_def Let_def split: option.splits)

lemma evolves_set_instance:
  "this \<in> S \<Longrightarrow> evolves S w0 w1 \<Longrightarrow> instances (containers w0 this) type = None
     \<Longrightarrow> evolves S w0 (set_instance this type v w1)"
  unfolding evolves_def set_instance_def by (elim conjE, intro conjI) auto

lemma closed_under_evolves: "evolves S w w' \<Longrightarrow> closed_under S w \<Longrightarrow> closed_under S w'"
  by (simp add: evolves_def closed_under_def)

lemma evolves_resolve:
  assumes "closed_under S w" and "this \<in> S" and "final (resolve n this t w) = Some w'"
  shows "evolves S w w'"
  by (rule preserve_general(1)[where R = "evolves S" and S = S, OF _ _ _ _ _ _ _ assms])
     (blast intro: evolves_refl evolves_trans evolves_note_call evolves_alloc
        evolves_getParams evolves_set_instance closed_under_evolves)+

lemma evolves_call:
  assumes "closed_under S w" and "captured p \<subseteq> S" and "final (call n p w) = Some w'"
  shows "evolves S w w'"
  by (rule preserve_general(2)[where R = "evolves S" and S = S, OF _ _ _ _ _ _ _ assms])
     (blast intro: evolves_refl evolves_trans evolves_note_call evolves_alloc
        evolves_getParams evolves_set_instance closed_under_evolves)+

lemma evolves_create:
  assumes "closed_under S w" and "this \<in> S" and "final (create n this c w) = Some w'"
  shows "evolves S w w'"
  by (rule preserve_general(3)[where R = "evolves S" and S = S, OF _ _ _ _ _ _ _ assms])
     (blast intro: evolves_refl evolves_trans evolves_note_call evolves_alloc
        evolves_getParams evolves_set_instance closed_under_evolves)+

lemma evolves_resolve_all:
  assumes "closed_under S w" and "this \<in> S" and "final (resolve_all n this ps w) = Some w'"
  shows "evolves S w w'"
  by (rule preserve_general(4)[where R = "evolves S" and S = S, OF _ _ _ _ _ _ _ assms])
     (blast intro: evolves_refl evolves_trans evolves_note_call evolves_alloc
        evolves_getParams evolves_set_instance closed_under_evolves)+

lemma closed_under_UNIV: "closed_under UNIV w"
  by (simp add: closed_under_def)

subsection \<open>Registration\<close>

text \<open>
  C3. A token that has a provider in a container cannot be given another one: \<open>provide\<close>,
  whatever the provider and the scope, and \<open>register\<close> throw the error of line 39; and
  \<open>provide\<close> on a token that has none succeeds, after which the token has one.
\<close>

theorem provide_twice_fails:
  "(dependencies (containers w this) type = None \<longrightarrow>
      (\<exists>w1. provide this type p s w = Ok () w1 \<and>
            dependencies (containers w1 this) type \<noteq> None \<and>
            (\<forall>p' s'. provide this type p' s' w1
                       = Throw (DuplicateRegistrationError w1 type) w1))) \<and>
   (dependencies (containers w this) type \<noteq> None \<longrightarrow>
      provide this type p s w = Throw (DuplicateRegistrationError w type) w) \<and>
   (dependencies (containers w this) (TypeTok k) \<noteq> None \<longrightarrow>
      register this k sc w = Throw (DuplicateRegistrationError w (TypeTok k)) w)"
  by (auto simp: provide_def register_def set_dependency_def split: scope.splits)

theorem provide_twice_fails_witness:
  "thrown (provide 0 (NamedTok ''svc'') (Const Undefined) (Some Prototype)
             (after (provide 0 (NamedTok ''svc'') (Fresh 0) None demo_world)))
     = Some (Error ''Type svc already has a registered provider'') \<and>
   thrown (register 0 1 Prototype (after (register 0 1 Singleton demo_world)))
     = Some (Error ''Type class MyApplication { } already has a registered provider'')"
  using provide_twice_fails[of demo_world 0 "NamedTok ''svc''" "Fresh 0" None]
        provide_twice_fails[of "after (register 0 1 Singleton demo_world)" 0 "TypeTok 1" "Fresh 0" None 1 Prototype]
  by (auto simp: demo_world_def initial_world_def empty_container_def after_def
        DuplicateRegistrationError_def string_of_def demo_classes_def
        register_def provide_def set_dependency_def scope_or_default_def)

text \<open>
  C10. A \<open>provide\<close> that throws has changed nothing: the state at the throw is the state
  before the call, so the registry, the cache and every later \<open>resolve\<close> are as they were.
\<close>

theorem provide_failure_changes_nothing:
  "provide this type p s w = Throw e w' \<Longrightarrow>
     w' = w \<and> e = DuplicateRegistrationError w type \<and>
     dependencies (containers w' this) type = dependencies (containers w this) type \<and>
     dependencies (containers w this) type \<noteq> None \<and>
     instances (containers w' this) = instances (containers w this) \<and>
     resolve n c t w' = resolve n c t w"
  by (auto simp: provide_def split: if_splits scope.splits)

theorem provide_failure_changes_nothing_witness:
  "provide 0 (NamedTok ''svc'') (Const Undefined) (Some Prototype)
      (after (provide 0 (NamedTok ''svc'') (Fresh 0) None demo_world))
     = Throw (Error ''Type svc already has a registered provider'')
         (after (provide 0 (NamedTok ''svc'') (Fresh 0) None demo_world)) \<and>
   dependencies (containers (after (provide 0 (NamedTok ''svc'') (Fresh 0) None demo_world)) 0)
      (NamedTok ''svc'') = Some (SingletonClosure 0 (NamedTok ''svc'') (Fresh 0))"
proof -
  let ?w = "after (provide 0 (NamedTok ''svc'') (Fresh 0) None demo_world)"
  have t: "provide 0 (NamedTok ''svc'') (Const Undefined) (Some Prototype) ?w
             = Throw (Error ''Type svc already has a registered provider'') ?w"
    by (simp add: demo_world_def initial_world_def empty_container_def after_def
        DuplicateRegistrationError_def string_of_def
        provide_def set_dependency_def scope_or_default_def singletonProvider_def)
  from provide_failure_changes_nothing[OF t, of 0 0 "NamedTok ''svc''"] t
  show ?thesis
    by (simp add: demo_world_def initial_world_def empty_container_def after_def
        provide_def set_dependency_def scope_or_default_def singletonProvider_def)
qed

subsection \<open>Helper facts about the calls\<close>

lemma evolves_any:
  "final (resolve n this t w) = Some w' \<Longrightarrow> evolves UNIV w w'"
  "final (call n p w) = Some w' \<Longrightarrow> evolves UNIV w w'"
  "final (create n this c w) = Some w' \<Longrightarrow> evolves UNIV w w'"
  "final (resolve_all n this ps w) = Some w' \<Longrightarrow> evolves UNIV w w'"
  using evolves_resolve[of UNIV w this n t w'] evolves_call[of UNIV w p n w']
    evolves_create[of UNIV w this n c w'] evolves_resolve_all[of UNIV w this n ps w']
  by (simp_all add: closed_under_UNIV)

lemma evolves_dependencies:
  "evolves S w w' \<Longrightarrow> dependencies (containers w' c) = dependencies (containers w c)"
  by (simp add: evolves_def)


lemma evolves_heap: "evolves S w w' \<Longrightarrow> \<exists>os. heap w' = heap w @ os"
  by (simp add: evolves_def)

lemma evolves_invoked: "evolves S w w' \<Longrightarrow> \<exists>ps. invoked w' = invoked w @ ps"
  by (simp add: evolves_def)

lemma evolves_name_of: "evolves S w w' \<Longrightarrow> name_of w' t = name_of w t"
  by (simp add: evolves_def name_of_def split: token.splits)

lemma evolves_UnregisteredTokenError:
  "evolves S w w' \<Longrightarrow> UnregisteredTokenError w' t = UnregisteredTokenError w t"
  by (simp add: UnregisteredTokenError_def evolves_name_of)

lemma resolve_all_append:
  "resolve_all n this (xs @ ys) w =
     (case resolve_all n this xs w of
        Ok a w1 \<Rightarrow> (case resolve_all n this ys w1 of
                      Ok b w2 \<Rightarrow> Ok (a @ b) w2
                    | Throw e w2 \<Rightarrow> Throw e w2
                    | Diverge \<Rightarrow> Diverge)
      | Throw e w1 \<Rightarrow> Throw e w1
      | Diverge \<Rightarrow> Diverge)"
proof (induction xs arbitrary: w)
  case Nil
  show ?case by (simp split: result.splits)
next
  case (Cons x xs)
  show ?case
  proof (cases x)
    case None
    then show ?thesis using Cons.IH by (simp split: result.splits)
  next
    case (Some d)
    show ?thesis
    proof (cases n)
      case 0
      then show ?thesis using Some by simp
    next
      case (Suc m)
      then show ?thesis using Some Cons.IH by (simp split: result.splits)
    qed
  qed
qed

lemma call_logs:
  "final (call (Suc n) p w) = Some w' \<Longrightarrow> \<exists>ps. invoked w' = invoked w @ p # ps"
proof (cases p)
  case (Fresh k)
  assume "final (call (Suc n) p w) = Some w'"
  then show ?thesis using Fresh by (auto simp: alloc_def note_call_def)
next
  case (Const v)
  assume "final (call (Suc n) p w) = Some w'"
  then show ?thesis using Const by (auto simp: note_call_def)
next
  case (CreateClosure this type)
  assume "final (call (Suc n) p w) = Some w'"
  then have "evolves UNIV (note_call p w) w'"
    using CreateClosure evolves_any(3) by simp
  then show ?thesis by (auto simp: note_call_def dest!: evolves_invoked)
next
  case (SingletonClosure this type q)
  assume f: "final (call (Suc n) p w) = Some w'"
  let ?w0 = "note_call p w"
  show ?thesis
  proof (cases "instances (containers ?w0 this) type = None")
    case True
    show ?thesis
    proof (cases "call n q ?w0")
      case (Ok v w1)
      then have "evolves UNIV ?w0 w1" using evolves_any(2)[of n q ?w0 w1] by simp
      moreover have "invoked w' = invoked w1"
        using f True Ok SingletonClosure by (auto simp: Let_def set_instance_def)
      ultimately show ?thesis by (auto simp: note_call_def dest!: evolves_invoked)
    next
      case (Throw e w1)
      then have "evolves UNIV ?w0 w1" using evolves_any(2)[of n q ?w0 w1] by simp
      moreover have "w' = w1" using f True Throw SingletonClosure by (simp add: Let_def)
      ultimately show ?thesis by (auto simp: note_call_def dest!: evolves_invoked)
    next
      case Diverge
      then show ?thesis using f True SingletonClosure by (simp add: Let_def)
    qed
  next
    case False
    then show ?thesis using f SingletonClosure by (auto simp: Let_def note_call_def)
  qed
qed

lemma create_fresh:
  assumes "create n this c w = Ok v w'"
  shows "\<exists>r args. v = Ref r \<and> length (heap w) \<le> r \<and> heap w' = take r (heap w') @ [Obj c args]
            \<and> length (heap w') = Suc r"
proof (cases n)
  case 0
  then show ?thesis using assms by simp
next
  case (Suc m)
  obtain params w1 where g: "getParams c w = (params, w1)" by (cases "getParams c w")
  have h1: "heap w1 = heap w" using g by (auto simp: getParams_def Let_def split: option.splits)
  from assms Suc g obtain args w2 where
    ra: "resolve_all m this params w1 = Ok args w2" and
    al: "alloc (Obj c args) w2 = (v, w')"
    by (auto split: result.splits prod.splits)
  have "evolves UNIV w1 w2" using ra evolves_any(4)[of m this params w1 w2] by simp
  then obtain os where "heap w2 = heap w @ os" using h1 by (auto dest!: evolves_heap)
  then show ?thesis using al by (auto simp: alloc_def)
qed

lemma call_fresh:
  assumes "produces_fresh p" and "call n p w = Ok v w'"
  shows "\<exists>r. v = Ref r \<and> length (heap w) \<le> r \<and> r < length (heap w')"
proof (cases n)
  case 0
  then show ?thesis using assms by simp
next
  case (Suc m)
  show ?thesis
  proof (cases p)
    case (Fresh k)
    then show ?thesis using assms Suc by (auto simp: alloc_def note_call_def)
  next
    case (CreateClosure this type)
    then have "create m this type (note_call p w) = Ok v w'" using assms Suc by simp
    from create_fresh[OF this] show ?thesis by (auto simp: note_call_def)
  qed (use assms in auto)
qed

subsection \<open>Unregistered tokens\<close>

text \<open>
  C4. \<open>resolve\<close> of a token that has no provider in the container throws the error of
  line 23, at the state of the call. The same holds inside \<open>create\<close>: when the parameters
  before the token resolve, the resolution of the parameter list, and with it \<open>create\<close>,
  throws that error at the state those parameters have left.
\<close>

theorem unregistered_token_fails:
  "dependencies (containers w this) t = None \<Longrightarrow>
     resolve (Suc n) this t w = Throw (UnregisteredTokenError w t) w \<and>
     (\<forall>pre post args w1.
        resolve_all (Suc (Suc n)) this pre w = Ok args w1 \<longrightarrow>
        resolve_all (Suc (Suc n)) this (pre @ Some t # post) w
          = Throw (UnregisteredTokenError w t) w1) \<and>
     (\<forall>c pre post w0 args w1.
        getParams c w = (pre @ Some t # post, w0) \<longrightarrow>
        resolve_all (Suc (Suc n)) this pre w0 = Ok args w1 \<longrightarrow>
        create (Suc (Suc (Suc n))) this c w = Throw (UnregisteredTokenError w t) w1)"
proof (intro conjI allI impI)
  assume un: "dependencies (containers w this) t = None"
  show "resolve (Suc n) this t w = Throw (UnregisteredTokenError w t) w"
    using un by simp
  have step: "resolve_all (Suc (Suc n)) this (pre @ Some t # post) u
                = Throw (UnregisteredTokenError w t) w1"
    if ev: "evolves UNIV w u" and ok: "resolve_all (Suc (Suc n)) this pre u = Ok args w1"
    for pre post args u w1
  proof -
    have "evolves UNIV u w1" using ok evolves_any(4)[of "Suc (Suc n)" this pre u w1] by simp
    then have e1: "evolves UNIV w w1" using ev evolves_trans by blast
    then have "dependencies (containers w1 this) t = None"
      using un by (simp add: evolves_dependencies)
    then show ?thesis
      using ok e1 by (simp add: resolve_all_append evolves_UnregisteredTokenError)
  qed
  show "resolve_all (Suc (Suc n)) this (pre @ Some t # post) w
          = Throw (UnregisteredTokenError w t) w1"
    if "resolve_all (Suc (Suc n)) this pre w = Ok args w1" for pre post args w1
    using step[OF evolves_refl that] .
  show "create (Suc (Suc (Suc n))) this c w = Throw (UnregisteredTokenError w t) w1"
    if g: "getParams c w = (pre @ Some t # post, w0)"
      and ok: "resolve_all (Suc (Suc n)) this pre w0 = Ok args w1"
    for c pre post w0 args w1
  proof -
    have "evolves UNIV w w0" using evolves_getParams[of UNIV w c] g by simp
    from step[OF this ok, of post] show ?thesis using g by simp
  qed
qed

theorem unregistered_token_fails_witness:
  "resolve 1 0 (TypeTok 0) demo_world
     = Throw (Error ''Error resolving type EmailService'') demo_world \<and>
   thrown (create 3 0 1 demo_world) = Some (Error ''Error resolving type EmailService'') \<and>
   thrown (resolve 5 0 (TypeTok 1) (after (register 0 1 Prototype demo_world)))
     = Some (Error ''Error resolving type EmailService'')"
proof -
  have un: "dependencies (containers demo_world 0) (TypeTok 0) = None"
    by (simp add: demo_world_def initial_world_def empty_container_def)
  have g: "getParams 1 demo_world = ([] @ Some (TypeTok 0) # [], snd (getParams 1 demo_world))"
    by (simp add: getParams_def demo_world_def initial_world_def demo_classes_def
          apply_tokens_def Let_def)
  have r: "resolve_all (Suc (Suc 0)) 0 [] (snd (getParams 1 demo_world))
              = Ok [] (snd (getParams 1 demo_world))"
    by simp
  have e: "UnregisteredTokenError demo_world (TypeTok 0)
             = Error ''Error resolving type EmailService''"
    by (simp add: UnregisteredTokenError_def name_of_def demo_world_def initial_world_def
          demo_classes_def)
  note th = unregistered_token_fails[OF un, of 0]
  have "resolve (Suc 0) 0 (TypeTok 0) demo_world
          = Throw (UnregisteredTokenError demo_world (TypeTok 0)) demo_world"
    using th by blast
  then have a: "resolve 1 0 (TypeTok 0) demo_world
             = Throw (Error ''Error resolving type EmailService'') demo_world"
    using e by simp
  have "create (Suc (Suc (Suc 0))) 0 1 demo_world
          = Throw (UnregisteredTokenError demo_world (TypeTok 0)) (snd (getParams 1 demo_world))"
    using th g r by blast
  then have b: "thrown (create 3 0 1 demo_world)
                  = Some (Error ''Error resolving type EmailService'')"
    using e by (simp add: numeral_3_eq_3)
  have c: "thrown (resolve 5 0 (TypeTok 1) (after (register 0 1 Prototype demo_world)))
     = Some (Error ''Error resolving type EmailService'')"
    by (simp add: eval_nat_numeral register_def provide_def demo_world_def initial_world_def
          empty_container_def scope_or_default_def set_dependency_def after_def
          note_call_def getParams_def demo_classes_def apply_tokens_def Let_def
          UnregisteredTokenError_def name_of_def)
  show ?thesis using a b c by simp
qed

text \<open>
  C9. The message of the error of line 23 is built from \<open>type.name\<close>. For a constructor
  that is the name of the class; a string token has no \<open>name\<close>, so every named token
  gives the one message that ends in \<open>undefined\<close>, at \<open>resolve\<close> and when the token is
  reached from \<open>create\<close>, and the token cannot be read back from the error.
\<close>

theorem named_token_error_is_undefined:
  "UnregisteredTokenError w (NamedTok s) = Error ''Error resolving type undefined'' \<and>
   resolve 1 0 (NamedTok ''EmailService'') demo_world
     = Throw (Error ''Error resolving type undefined'') demo_world \<and>
   resolve 1 0 (NamedTok ''Mailer'') demo_world
     = Throw (Error ''Error resolving type undefined'') demo_world \<and>
   thrown (resolve 5 0 (TypeTok 2) (after (register 0 2 Prototype demo_world)))
     = Some (Error ''Error resolving type undefined'') \<and>
   thrown (provide 0 (NamedTok ''Mailer'') (Fresh 0) None
             (after (provide 0 (NamedTok ''Mailer'') (Fresh 0) None demo_world)))
     = Some (Error ''Type Mailer already has a registered provider'')"
  by (simp add: eval_nat_numeral register_def provide_def demo_world_def initial_world_def
        empty_container_def scope_or_default_def set_dependency_def after_def
        note_call_def getParams_def demo_classes_def apply_tokens_def array_set_def
        is_array_index_def Let_def
        UnregisteredTokenError_def DuplicateRegistrationError_def name_of_def string_of_def)

subsection \<open>Scope Prototype\<close>

text \<open>
  C5. With scope \<open>Prototype\<close>, \<open>provide\<close> stores the provider it was given, as it is.
  Every \<open>resolve\<close> of a token whose stored provider is \<open>p\<close> is an invocation of \<open>p\<close>: it
  has the result of the call of \<open>p\<close> and the log gets \<open>p\<close>. When \<open>p\<close> is a factory of
  fresh objects, two calls of \<open>resolve\<close> return, with two different references; and
  whenever a provider that makes new objects (a factory, or the closure of \<open>register\<close>)
  returns from two calls of \<open>resolve\<close>, the second in any later state, the two
  instances differ.
\<close>

theorem prototype_resolve_reinvokes:
  "(dependencies (containers w this) t = None \<longrightarrow>
      provide this t p (Some Prototype) w = Ok () (set_dependency this t p w) \<and>
      dependencies (containers (set_dependency this t p w) this) t = Some p) \<and>
   (dependencies (containers w this) t = Some p \<longrightarrow>
      resolve (Suc n) this t w = call n p w \<and>
      (\<forall>w'. final (resolve (Suc (Suc n)) this t w) = Some w' \<longrightarrow>
            (\<exists>ps. invoked w' = invoked w @ p # ps) \<and>
            dependencies (containers w' this) t = Some p)) \<and>
   (dependencies (containers w this) t = Some (Fresh k) \<longrightarrow>
      (\<exists>w1 w2. resolve (Suc (Suc n)) this t w = Ok (Ref (length (heap w))) w1 \<and>
               resolve (Suc (Suc m)) this t w1 = Ok (Ref (Suc (length (heap w)))) w2)) \<and>
   (dependencies (containers w this) t = Some p \<longrightarrow> produces_fresh p \<longrightarrow>
      (\<forall>v1 w1 u v2 w2.
         resolve n this t w = Ok v1 w1 \<longrightarrow> evolves UNIV w1 u \<longrightarrow>
         resolve m this t u = Ok v2 w2 \<longrightarrow> v1 \<noteq> v2))"
proof (intro conjI impI allI)
  assume "dependencies (containers w this) t = None"
  then show "provide this t p (Some Prototype) w = Ok () (set_dependency this t p w)"
    by (simp add: provide_def scope_or_default_def)
  show "dependencies (containers (set_dependency this t p w) this) t = Some p"
    by (simp add: set_dependency_def)
next
  assume d: "dependencies (containers w this) t = Some p"
  show "resolve (Suc n) this t w = call n p w" using d by simp
  fix w'
  assume f: "final (resolve (Suc (Suc n)) this t w) = Some w'"
  then have "final (call (Suc n) p w) = Some w'" using d by simp
  then show "\<exists>ps. invoked w' = invoked w @ p # ps" by (rule call_logs)
  show "dependencies (containers w' this) t = Some p"
    using evolves_any(1)[OF f] d by (simp add: evolves_dependencies)
next
  assume d: "dependencies (containers w this) t = Some (Fresh k)"
  show "\<exists>w1 w2. resolve (Suc (Suc n)) this t w = Ok (Ref (length (heap w))) w1 \<and>
               resolve (Suc (Suc m)) this t w1 = Ok (Ref (Suc (length (heap w)))) w2"
    using d by (simp add: alloc_def note_call_def)
next
  fix v1 w1 u v2 w2
  assume d: "dependencies (containers w this) t = Some p" and pf: "produces_fresh p"
    and r1: "resolve n this t w = Ok v1 w1" and ev: "evolves UNIV w1 u"
    and r2: "resolve m this t u = Ok v2 w2"
  obtain n' where n: "n = Suc n'" using r1 by (cases n) auto
  obtain m' where m: "m = Suc m'" using r2 by (cases m) auto
  have c1: "call n' p w = Ok v1 w1" using r1 d n by simp
  have "evolves UNIV w w1" using r1 evolves_any(1)[of n this t w w1] by simp
  then have "evolves UNIV w u" using ev evolves_trans by blast
  then have "dependencies (containers u this) t = Some p"
    using d by (simp add: evolves_dependencies)
  then have c2: "call m' p u = Ok v2 w2" using r2 m by simp
  from call_fresh[OF pf c1] obtain r where 1: "v1 = Ref r" "r < length (heap w1)" by blast
  from call_fresh[OF pf c2] obtain r' where 2: "v2 = Ref r'" "length (heap u) \<le> r'" by blast
  from ev obtain os where "heap u = heap w1 @ os" by (auto dest!: evolves_heap)
  then show "v1 \<noteq> v2" using 1 2 by auto
qed

theorem prototype_resolve_reinvokes_witness:
  "returned (resolve 2 0 (NamedTok ''svc'')
       (after (provide 0 (NamedTok ''svc'') (Fresh 0) (Some Prototype) demo_world)))
     = Some (Ref 0) \<and>
   returned (resolve 2 0 (NamedTok ''svc'')
       (after (resolve 2 0 (NamedTok ''svc'')
          (after (provide 0 (NamedTok ''svc'') (Fresh 0) (Some Prototype) demo_world)))))
     = Some (Ref 1) \<and>
   invoked (after (resolve 2 0 (NamedTok ''svc'')
       (after (resolve 2 0 (NamedTok ''svc'')
          (after (provide 0 (NamedTok ''svc'') (Fresh 0) (Some Prototype) demo_world))))))
     = [Fresh 0, Fresh 0]"
proof -
  let ?w = "after (provide 0 (NamedTok ''svc'') (Fresh 0) (Some Prototype) demo_world)"
  have d: "dependencies (containers ?w 0) (NamedTok ''svc'') = Some (Fresh 0)"
    by (simp add: provide_def after_def demo_world_def initial_world_def empty_container_def
          scope_or_default_def set_dependency_def)
  have h: "heap ?w = []" "invoked ?w = []"
    by (simp_all add: provide_def after_def demo_world_def initial_world_def
          empty_container_def scope_or_default_def set_dependency_def)
  from prototype_resolve_reinvokes[of ?w 0 "NamedTok ''svc''" "Fresh 0" 0 0 0] d
  obtain w1 w2 where
    1: "resolve (Suc (Suc 0)) 0 (NamedTok ''svc'') ?w = Ok (Ref (length (heap ?w))) w1" and
    2: "resolve (Suc (Suc 0)) 0 (NamedTok ''svc'') w1 = Ok (Ref (Suc (length (heap ?w)))) w2"
    by blast
  have w1: "after (resolve 2 0 (NamedTok ''svc'') ?w) = w1"
    using 1 by (simp add: after_def numeral_2_eq_2)
  have i: "invoked (after (resolve 2 0 (NamedTok ''svc'')
               (after (resolve 2 0 (NamedTok ''svc'') ?w)))) = [Fresh 0, Fresh 0]"
    using d h by (simp add: numeral_2_eq_2 after_def alloc_def note_call_def)
  show ?thesis using 1 2 w1 h i by (simp add: numeral_2_eq_2)
qed

subsection \<open>What stays over any sequence of operations\<close>

lemma later_refl: "later w w"
  by (simp add: later_def)

lemma later_trans: "later a b \<Longrightarrow> later b c \<Longrightarrow> later a c"
  unfolding later_def by (meson le_trans less_le_trans)

lemma evolves_later: "evolves S w u \<Longrightarrow> later w u"
  by (simp add: evolves_def later_def)

lemma provide_later: "final (provide c t p s w) = Some u \<Longrightarrow> later w u"
  by (auto simp: provide_def later_def set_dependency_def split: if_splits scope.splits)

lemma newContainer_later: "newContainer w = (c, u) \<Longrightarrow> later w u"
  by (auto simp: newContainer_def later_def)

lemma perform_later: "perform r w = Some u \<Longrightarrow> later w u"
proof (cases r)
  case (Resolve n c t)
  assume "perform r w = Some u"
  then have "final (resolve n c t w) = Some u" using Resolve by (auto split: if_splits)
  then have "evolves UNIV w u" by (rule evolves_any(1))
  then show ?thesis by (rule evolves_later)
next
  case (Provide c t p s)
  assume "perform r w = Some u"
  then have "final (provide c t p s w) = Some u" using Provide by (auto split: if_splits)
  then show ?thesis by (rule provide_later)
next
  case (Register c k sc)
  assume "perform r w = Some u"
  then have "final (register c k sc w) = Some u" using Register by (auto split: if_splits)
  then show ?thesis unfolding register_def by (rule provide_later)
next
  case NewContainer
  assume "perform r w = Some u"
  then show ?thesis using NewContainer newContainer_later[of w "fst (newContainer w)" u]
    by auto
qed

lemma run_later: "run rs w = Some u \<Longrightarrow> later w u"
proof (induction rs arbitrary: w)
  case Nil
  then show ?case by (simp add: later_refl)
next
  case (Cons r rs)
  then obtain w1 where "perform r w = Some w1" "run rs w1 = Some u"
    by (auto split: option.splits)
  then show ?case using Cons.IH perform_later later_trans by blast
qed

subsection \<open>Scope Singleton\<close>

text \<open>
  C1. With scope \<open>Singleton\<close> (also the default), \<open>provide\<close> stores the closure of
  \<open>singletonProvider\<close> and invokes nothing. While the token has no cached instance, a
  \<open>resolve\<close> is one call of the raw provider, whose value it stores under the token and
  returns: the log gets the closure, then the raw provider and what the raw provider
  invokes itself, which is nothing for a provider that captures no container. A
  \<open>resolve\<close> that returns leaves its value cached under the token; and in
  every state a program reaches afterwards, by any requests to any containers,
  \<open>resolve\<close> returns that same value, invoking the closure only: the log gets the closure
  and nothing else, and nothing else changes.
\<close>

theorem singleton_resolves_once:
  "(dependencies (containers w this) t = None \<longrightarrow>
      provide this t p (Some Singleton) w
        = Ok () (set_dependency this t (singletonProvider this t p) w) \<and>
      provide this t p None w = provide this t p (Some Singleton) w \<and>
      invoked (set_dependency this t (singletonProvider this t p) w) = invoked w \<and>
      heap (set_dependency this t (singletonProvider this t p) w) = heap w \<and>
      instances (containers (set_dependency this t (singletonProvider this t p) w) this)
        = instances (containers w this)) \<and>
   (dependencies (containers w this) t = Some (singletonProvider this t p) \<longrightarrow>
      (instances (containers w this) t = None \<longrightarrow>
         resolve (Suc (Suc n)) this t w =
           (case call n p (note_call (singletonProvider this t p) w) of
              Ok v w1 \<Rightarrow> Ok v (set_instance this t v w1)
            | Throw e w1 \<Rightarrow> Throw e w1
            | Diverge \<Rightarrow> Diverge)) \<and>
      (\<forall>v. instances (containers w this) t = Some v \<longrightarrow>
           resolve (Suc (Suc n)) this t w = Ok v (note_call (singletonProvider this t p) w)) \<and>
      (\<forall>k v w'. resolve k this t w = Ok v w' \<longrightarrow>
           instances (containers w' this) t = Some v) \<and>
      (\<forall>k v w'. instances (containers w this) t = None \<longrightarrow>
           resolve k this t w = Ok v w' \<longrightarrow>
           (\<exists>ps. invoked w' = invoked w @ singletonProvider this t p # p # ps) \<and>
           (captured p = {} \<longrightarrow> invoked w' = invoked w @ [singletonProvider this t p, p])) \<and>
      (this < ncontainers w \<longrightarrow>
         (\<forall>k v w' rs u m. resolve k this t w = Ok v w' \<longrightarrow> run rs w' = Some u \<longrightarrow>
            resolve (Suc (Suc m)) this t u
              = Ok v (note_call (singletonProvider this t p) u))))"
proof (intro conjI impI allI)
  assume "dependencies (containers w this) t = None"
  then show "provide this t p (Some Singleton) w
        = Ok () (set_dependency this t (singletonProvider this t p) w)"
    and "provide this t p None w = provide this t p (Some Singleton) w"
    by (simp_all add: provide_def scope_or_default_def)
  show "invoked (set_dependency this t (singletonProvider this t p) w) = invoked w"
    and "heap (set_dependency this t (singletonProvider this t p) w) = heap w"
    and "instances (containers (set_dependency this t (singletonProvider this t p) w) this)
        = instances (containers w this)"
    by (simp_all add: set_dependency_def)
next
  assume d: "dependencies (containers w this) t = Some (singletonProvider this t p)"
  have first: "resolve (Suc (Suc k)) this t u =
           (case call k p (note_call (singletonProvider this t p) u) of
              Ok v w1 \<Rightarrow> Ok v (set_instance this t v w1)
            | Throw e w1 \<Rightarrow> Throw e w1
            | Diverge \<Rightarrow> Diverge)"
    if "dependencies (containers u this) t = Some (singletonProvider this t p)"
      and "instances (containers u this) t = None" for u k
    using that
    by (simp add: singletonProvider_def note_call_def Let_def get_instance_def
          set_instance_def split: result.splits)
  have again: "resolve (Suc (Suc k)) this t u = Ok v (note_call (singletonProvider this t p) u)"
    if "dependencies (containers u this) t = Some (singletonProvider this t p)"
      and "instances (containers u this) t = Some v" for u k v
    using that
    by (simp add: singletonProvider_def note_call_def Let_def get_instance_def)
  show "resolve (Suc (Suc n)) this t w =
           (case call n p (note_call (singletonProvider this t p) w) of
              Ok v w1 \<Rightarrow> Ok v (set_instance this t v w1)
            | Throw e w1 \<Rightarrow> Throw e w1
            | Diverge \<Rightarrow> Diverge)"
    if "instances (containers w this) t = None"
    using first[OF d that] .
  show "resolve (Suc (Suc n)) this t w = Ok v (note_call (singletonProvider this t p) w)"
    if "instances (containers w this) t = Some v" for v
    using again[OF d that] .
  have cached: "instances (containers w' this) t = Some v"
    if r: "resolve k this t w = Ok v w'" for k v w'
  proof (cases "instances (containers w this) t")
    case None
    obtain k1 where "k = Suc k1" using r by (cases k) auto
    moreover from this obtain k2 where "k1 = Suc k2"
      using r d by (cases k1) (auto simp: singletonProvider_def)
    ultimately have k: "k = Suc (Suc k2)" by simp
    show ?thesis using r first[OF d None, of k2] unfolding k
      by (auto simp: set_instance_def split: result.splits)
  next
    case (Some v0)
    obtain k1 where "k = Suc k1" using r by (cases k) auto
    moreover from this obtain k2 where "k1 = Suc k2"
      using r d by (cases k1) (auto simp: singletonProvider_def)
    ultimately have k: "k = Suc (Suc k2)" by simp
    show ?thesis using r again[OF d Some, of k2] Some unfolding k
      by (auto simp: note_call_def)
  qed
  show "instances (containers w' this) t = Some v" if "resolve k this t w = Ok v w'" for k v w'
    using cached[OF that] .
  have logged: "(\<exists>ps. invoked w' = invoked w @ singletonProvider this t p # p # ps) \<and>
           (captured p = {} \<longrightarrow> invoked w' = invoked w @ [singletonProvider this t p, p])"
    if un: "instances (containers w this) t = None" and r: "resolve k this t w = Ok v w'"
    for k v w'
  proof -
    let ?w0 = "note_call (singletonProvider this t p) w"
    obtain k1 where "k = Suc k1" using r by (cases k) auto
    moreover from this obtain k2 where "k1 = Suc k2"
      using r d by (cases k1) (auto simp: singletonProvider_def)
    ultimately have k: "k = Suc (Suc k2)" by simp
    from r first[OF d un, of k2] obtain w1 where
      c: "call k2 p ?w0 = Ok v w1" and w': "w' = set_instance this t v w1"
      unfolding k by (auto split: result.splits)
    obtain k3 where k3: "k2 = Suc k3" using c by (cases k2) auto
    have i0: "invoked ?w0 = invoked w @ [singletonProvider this t p]"
      by (simp add: note_call_def)
    have i': "invoked w' = invoked w1" using w' by (simp add: set_instance_def)
    from call_logs[of k3 p ?w0 w1] c k3 obtain ps where "invoked w1 = invoked ?w0 @ p # ps"
      by auto
    then have a: "\<exists>ps. invoked w' = invoked w @ singletonProvider this t p # p # ps"
      using i0 i' by simp
    have b: "invoked w' = invoked w @ [singletonProvider this t p, p]" if "captured p = {}"
      using that c k3 i0 i' by (cases p) (auto simp: alloc_def note_call_def)
    show ?thesis using a b by blast
  qed
  show "\<exists>ps. invoked w' = invoked w @ singletonProvider this t p # p # ps"
    if "instances (containers w this) t = None" and "resolve k this t w = Ok v w'" for k v w'
    using logged[OF that] by blast
  show "invoked w' = invoked w @ [singletonProvider this t p, p]"
    if "instances (containers w this) t = None" and "resolve k this t w = Ok v w'"
      and "captured p = {}" for k v w'
    using logged[OF that(1,2)] that(3) by blast
  show "resolve (Suc (Suc m)) this t u = Ok v (note_call (singletonProvider this t p) u)"
    if ex: "this < ncontainers w" and r: "resolve k this t w = Ok v w'"
      and re: "run rs w' = Some u"
    for k v w' rs u m
  proof -
    have e: "evolves UNIV w w'" using r evolves_any(1)[of k this t w w'] by simp
    then have l: "later w w'" by (rule evolves_later)
    have l2: "later w' u" using re by (rule run_later)
    have ex': "this < ncontainers w'" using e ex by (simp add: evolves_def)
    have "dependencies (containers w' this) t = Some (singletonProvider this t p)"
      using e d by (simp add: evolves_dependencies)
    then have du: "dependencies (containers u this) t = Some (singletonProvider this t p)"
      using l2 ex' by (auto simp: later_def)
    have "instances (containers u this) t = Some v"
      using cached[OF r] l2 ex' by (auto simp: later_def)
    from again[OF du this] show ?thesis .
  qed
qed

theorem singleton_resolves_once_witness:
  "returned (resolve 3 0 (NamedTok ''svc'')
       (after (provide 0 (NamedTok ''svc'') (Fresh 0) None demo_world))) = Some (Ref 0) \<and>
   returned (resolve 2 0 (NamedTok ''svc'')
       (after (provide 0 (NamedTok ''other'') (Fresh 0) (Some Prototype)
          (after (resolve 3 0 (NamedTok ''svc'')
             (after (provide 0 (NamedTok ''svc'') (Fresh 0) None demo_world))))))) = Some (Ref 0) \<and>
   invoked (after (resolve 2 0 (NamedTok ''svc'')
       (after (provide 0 (NamedTok ''other'') (Fresh 0) (Some Prototype)
          (after (resolve 3 0 (NamedTok ''svc'')
             (after (provide 0 (NamedTok ''svc'') (Fresh 0) None demo_world)))))))) =
     [SingletonClosure 0 (NamedTok ''svc'') (Fresh 0), Fresh 0,
      SingletonClosure 0 (NamedTok ''svc'') (Fresh 0)]"
proof -
  let ?t = "NamedTok ''svc''"
  let ?w = "after (provide 0 ?t (Fresh 0) None demo_world)"
  define W1 where "W1 = set_instance 0 ?t (Ref 0)
         (snd (alloc (Obj 0 []) (note_call (Fresh 0)
            (note_call (SingletonClosure 0 ?t (Fresh 0)) ?w))))"
  let ?u = "after (provide 0 (NamedTok ''other'') (Fresh 0) (Some Prototype) W1)"
  have w: "?w = set_dependency 0 ?t (SingletonClosure 0 ?t (Fresh 0)) demo_world"
    by (simp add: provide_def after_def demo_world_def initial_world_def empty_container_def
          scope_or_default_def singletonProvider_def)
  have d: "dependencies (containers ?w 0) ?t = Some (singletonProvider 0 ?t (Fresh 0))"
    unfolding w by (simp add: set_dependency_def singletonProvider_def)
  have n: "0 < ncontainers ?w"
    unfolding w by (simp add: set_dependency_def demo_world_def initial_world_def)
  have r: "resolve 3 0 ?t ?w = Ok (Ref 0) W1"
    unfolding w W1_def
    by (simp add: numeral_3_eq_3 set_dependency_def demo_world_def initial_world_def
          empty_container_def note_call_def alloc_def Let_def get_instance_def set_instance_def)
  then have w1: "after (resolve 3 0 ?t ?w) = W1" by (simp add: after_def)
  have "evolves UNIV ?w W1" using r evolves_any(1)[of 3 0 ?t ?w W1] by simp
  then have "0 < ncontainers W1" using n by (simp add: evolves_def)
  moreover have "final (provide 0 (NamedTok ''other'') (Fresh 0) (Some Prototype) W1) = Some ?u"
    by (auto simp: after_def provide_def scope_or_default_def split: scope.splits)
  ultimately have re: "run [Provide 0 (NamedTok ''other'') (Fresh 0) (Some Prototype)] W1
                         = Some ?u"
    by simp
  from singleton_resolves_once[of ?w 0 ?t "Fresh 0" 0] d n r re
  have again: "resolve (Suc (Suc 0)) 0 ?t ?u
                 = Ok (Ref 0) (note_call (singletonProvider 0 ?t (Fresh 0)) ?u)"
    by blast
  have "invoked W1 = [SingletonClosure 0 ?t (Fresh 0), Fresh 0]"
    unfolding W1_def w
    by (simp add: set_dependency_def demo_world_def
          initial_world_def empty_container_def set_instance_def alloc_def note_call_def)
  then have i: "invoked ?u = [SingletonClosure 0 ?t (Fresh 0), Fresh 0]"
    by (simp add: after_def provide_def scope_or_default_def set_dependency_def
          split: scope.splits)
  show ?thesis
    unfolding w1 using r again i
    by (simp add: numeral_2_eq_2 after_def note_call_def singletonProvider_def)
qed

subsection \<open>The parameter array\<close>






lemma apply_tokens_Nil: "apply_tokens ps [] = ps"
  by (simp add: apply_tokens_def)












lemma getParams_frame:
  "heap (snd (getParams c w)) = heap w"
  "invoked (snd (getParams c w)) = invoked w"
  "containers (snd (getParams c w)) = containers w"
  "ncontainers (snd (getParams c w)) = ncontainers w"
  by (simp_all add: getParams_def Let_def split: option.splits)

lemma getParams_unbound:
  "bound_tokens w c = [] \<Longrightarrow> getParams c w = (declared w c, w)"
proof (cases "paramtypes (classes w c)")
  case None
  assume "bound_tokens w c = []"
  then show ?thesis using None
    by (simp add: getParams_def declared_def bound_tokens_def apply_tokens_Nil Let_def
          split: option.splits)
next
  case (Some ps)
  assume b: "bound_tokens w c = []"
  have "(classes w c)\<lparr>paramtypes := Some ps\<rparr> = classes w c" using Some by simp
  then have "w\<lparr>classes := (classes w)(c := (classes w c)\<lparr>paramtypes := Some ps\<rparr>)\<rparr> = w"
    by simp
  then show ?thesis using Some b
    by (simp add: getParams_def declared_def bound_tokens_def apply_tokens_Nil Let_def
          split: option.splits)
qed

subsection \<open>What create builds\<close>

lemma resolve_all_args:
  "resolve_all n this ps w = Ok args w' \<Longrightarrow>
     length args = length ps \<and>
     (\<forall>i < length ps.
        (ps ! i = None \<longrightarrow> args ! i = Undefined) \<and>
        (\<forall>u. ps ! i = Some u \<longrightarrow>
           (\<exists>m wi wi'. evolves UNIV w wi \<and> resolve m this u wi = Ok (args ! i) wi' \<and>
                        evolves UNIV wi' w')))"
proof (induction ps arbitrary: w args)
  case Nil
  then show ?case by auto
next
  case (Cons x ps)
  show ?case
  proof (cases x)
    case None
    from Cons.prems None obtain as where
      r: "resolve_all n this ps w = Ok as w'" and a: "args = Undefined # as"
      by (auto split: result.splits)
    note ih = Cons.IH[OF r]
    show ?thesis
    proof (intro conjI allI impI)
      show "length args = length (x # ps)" using ih a by simp
    next
      fix i assume "i < length (x # ps)" "(x # ps) ! i = None"
      then show "args ! i = Undefined" using ih a None by (cases i) auto
    next
      fix i u assume i: "i < length (x # ps)" and s: "(x # ps) ! i = Some u"
      then obtain j where j: "i = Suc j" using None by (cases i) auto
      then show "\<exists>m wi wi'. evolves UNIV w wi \<and> resolve m this u wi = Ok (args ! i) wi' \<and>
                        evolves UNIV wi' w'"
        using ih a i s by auto
    qed
  next
    case (Some d)
    obtain m where n: "n = Suc m" using Cons.prems Some by (cases n) auto
    from Cons.prems Some n obtain v w1 as where
      r1: "resolve m this d w = Ok v w1" and
      r: "resolve_all (Suc m) this ps w1 = Ok as w'" and a: "args = v # as"
      by (auto split: result.splits)
    note ih = Cons.IH[OF r[folded n]]
    have e1: "evolves UNIV w w1" using r1 evolves_any(1)[of m this d w w1] by simp
    have e2: "evolves UNIV w1 w'"
      using r evolves_any(4)[of "Suc m" this ps w1 w'] by simp
    show ?thesis
    proof (intro conjI allI impI)
      show "length args = length (x # ps)" using ih a by simp
    next
      fix i assume "i < length (x # ps)" "(x # ps) ! i = None"
      then show "args ! i = Undefined" using ih a Some by (cases i) auto
    next
      fix i u assume i: "i < length (x # ps)" and s: "(x # ps) ! i = Some u"
      show "\<exists>m wi wi'. evolves UNIV w wi \<and> resolve m this u wi = Ok (args ! i) wi' \<and>
                        evolves UNIV wi' w'"
      proof (cases i)
        case 0
        then have "u = d" using s Some by simp
        then show ?thesis using r1 e2 a 0 evolves_refl by auto
      next
        case (Suc j)
        then have "j < length ps" "ps ! j = Some u" using i s by auto
        with ih obtain m' wi wi' where
          *: "evolves UNIV w1 wi" "resolve m' this u wi = Ok (as ! j) wi'" "evolves UNIV wi' w'"
          by blast
        have "evolves UNIV w wi" using e1 *(1) by (rule evolves_trans)
        moreover have "args ! i = as ! j" using a Suc by simp
        ultimately show ?thesis using *(2,3) by metis
      qed
    qed
  qed
qed

lemma create_builds:
  assumes "create n this c w = Ok v w'"
  shows "\<exists>m r args w1 w2.
           n = Suc m \<and> v = Ref r \<and> r < length (heap w') \<and> heap w' ! r = Obj c args \<and>
           r = length (heap w2) \<and> length (heap w) \<le> r \<and>
           w1 = snd (getParams c w) \<and>
           resolve_all m this (fst (getParams c w)) w1 = Ok args w2"
proof -
  obtain m where n: "n = Suc m" using assms by (cases n) auto
  obtain params w1 where g: "getParams c w = (params, w1)" by (cases "getParams c w")
  from assms n g obtain args w2 where
    ra: "resolve_all m this params w1 = Ok args w2" and
    al: "alloc (Obj c args) w2 = (v, w')"
    by (auto split: result.splits prod.splits)
  have "evolves UNIV w1 w2" using ra evolves_any(4)[of m this params w1 w2] by simp
  moreover have "heap w1 = heap w" using g getParams_frame(1)[of c w] by simp
  ultimately obtain os where "heap w2 = heap w @ os" by (auto dest!: evolves_heap)
  then show ?thesis using n g ra al by (auto simp: alloc_def)
qed

lemma resolve_all_split:
  assumes "resolve_all n this (xs @ ys) w = Ok args w'"
  shows "\<exists>a w1 b. resolve_all n this xs w = Ok a w1 \<and> resolve_all n this ys w1 = Ok b w' \<and>
           args = a @ b \<and> length a = length xs"
proof -
  from assms obtain a w1 b where
    x: "resolve_all n this xs w = Ok a w1" and y: "resolve_all n this ys w1 = Ok b w'"
    and ab: "args = a @ b"
    unfolding resolve_all_append by (auto split: result.splits)
  from resolve_all_args[OF x] have "length a = length xs" by simp
  then show ?thesis using x y ab by blast
qed

text \<open>
  The argument at a position is what \<open>resolve\<close> of the token at that position returns in
  the state the parameters before it have left.
\<close>

lemma resolve_all_nth:
  assumes "resolve_all n this ps w = Ok args w'" and "i < length ps" and "ps ! i = Some u"
  shows "\<exists>m wi wi'. n = Suc m \<and> i < length args \<and>
           resolve_all n this (take i ps) w = Ok (take i args) wi \<and>
           resolve m this u wi = Ok (args ! i) wi'"
proof -
  have ps: "ps = take i ps @ Some u # drop (Suc i) ps"
    using assms(2,3) id_take_nth_drop by metis
  from resolve_all_split[of n this "take i ps" "Some u # drop (Suc i) ps" w args w'] assms(1) ps
  obtain a w1 b where
    x: "resolve_all n this (take i ps) w = Ok a w1" and
    y: "resolve_all n this (Some u # drop (Suc i) ps) w1 = Ok b w'" and
    ab: "args = a @ b" and la: "length a = length (take i ps)"
    by metis
  obtain m where n: "n = Suc m" using y by (cases n) auto
  from y n obtain v w2 bs where
    r: "resolve m this u w1 = Ok v w2" and b: "b = v # bs"
    by (auto split: result.splits)
  have li: "length a = i" using la assms(2) by simp
  have "take i args = a" "args ! i = v" "i < length args"
    using ab b li by (simp_all add: nth_append)
  then show ?thesis using n x r by auto
qed


subsection \<open>A token under a key that is no array index\<close>







subsection \<open>What the state updates leave\<close>

lemma declared_frame:
  "declared (note_call p w) c = declared w c"
  "declared (set_instance this t v w) c = declared w c"
  "declared (set_dependency this t q w) c = declared w c"
  "declared (w\<lparr>heap := h\<rparr>) c = declared w c"
  by (simp_all add: declared_def note_call_def set_instance_def set_dependency_def)

lemma bound_tokens_frame:
  "bound_tokens (note_call p w) c = bound_tokens w c"
  "bound_tokens (set_instance this t v w) c = bound_tokens w c"
  "bound_tokens (set_dependency this t q w) c = bound_tokens w c"
  "bound_tokens (w\<lparr>heap := h\<rparr>) c = bound_tokens w c"
  by (simp_all add: bound_tokens_def note_call_def set_instance_def set_dependency_def)

lemma dependencies_frame:
  "dependencies (containers (note_call p w) c) = dependencies (containers w c)"
  "dependencies (containers (set_instance this t v w) c) = dependencies (containers w c)"
  "dependencies (containers (w\<lparr>heap := h\<rparr>) c) = dependencies (containers w c)"
  "dependencies (containers (set_dependency this t q w) c) t'
     = (if c = this \<and> t' = t then Some q else dependencies (containers w c) t')"
  by (simp_all add: note_call_def set_instance_def set_dependency_def)

lemma instances_frame:
  "instances (containers (note_call p w) c) = instances (containers w c)"
  "instances (containers (set_dependency this t q w) c) = instances (containers w c)"
  "instances (containers (w\<lparr>heap := h\<rparr>) c) = instances (containers w c)"
  "instances (containers (set_instance this t v w) c) t'
     = (if c = this \<and> t' = t then Some v else instances (containers w c) t')"
  by (simp_all add: note_call_def set_instance_def set_dependency_def)

lemma heap_frame:
  "heap (note_call p w) = heap w"
  "heap (set_instance this t v w) = heap w"
  "heap (set_dependency this t q w) = heap w"
  by (simp_all add: note_call_def set_instance_def set_dependency_def)

lemma get_instance_set_instance: "get_instance this t (set_instance this t v w) = v"
  by (simp add: get_instance_def set_instance_def)

lemmas frame_simps = declared_frame bound_tokens_frame dependencies_frame instances_frame
  heap_frame get_instance_set_instance

subsection \<open>Tokens bound to parameter positions\<close>







subsection \<open>Constructor injection\<close>

text \<open>The first resolve of a type registered with scope Singleton whose parameters are none.\<close>

lemma resolve_leaf_singleton:
  assumes "declared w A = []" and "bound_tokens w A = []"
    and "dependencies (containers w this) (TypeTok A)
           = Some (SingletonClosure this (TypeTok A) (CreateClosure this A))"
    and "instances (containers w this) (TypeTok A) = None"
  shows "resolve (Suc (Suc (Suc (Suc n)))) this (TypeTok A) w =
           Ok (Ref (length (heap w)))
              (set_instance this (TypeTok A) (Ref (length (heap w)))
                 ((note_call (CreateClosure this A)
                    (note_call (SingletonClosure this (TypeTok A) (CreateClosure this A)) w))
                  \<lparr>heap := heap w @ [Obj A []]\<rparr>))"
  using assms
  by (simp add: frame_simps getParams_unbound alloc_def Let_def)

lemma cached_stays:
  assumes "this < ncontainers w"
    and "dependencies (containers w this) t = Some (SingletonClosure this t p)"
    and "instances (containers w this) t = Some v"
    and "run rs w = Some u"
  shows "resolve (Suc (Suc m)) this t u = Ok v (note_call (SingletonClosure this t p) u)"
proof -
  have "later w u" using assms(4) by (rule run_later)
  then have "dependencies (containers u this) t = Some (SingletonClosure this t p)"
    and "instances (containers u this) t = Some v"
    using assms(1-3) by (auto simp: later_def)
  then show ?thesis by (simp add: frame_simps get_instance_def Let_def)
qed

text \<open>
  C2. Let \<open>A\<close> declare no parameter and \<open>B\<close> the one parameter \<open>A\<close>, no token being bound
  to a position of either, in a container where neither is registered nor cached. Then
  \<open>register\<close> of both with scope \<open>Singleton\<close> succeeds, and \<open>resolve\<close> of \<open>B\<close> returns a
  new object of class \<open>B\<close> whose one constructor argument is a new object of class \<open>A\<close>;
  \<open>resolve\<close> of \<open>A\<close> then, and in every state a program reaches later, returns that
  same \<open>A\<close>. When \<open>A\<close> is resolved first, \<open>resolve\<close> of \<open>B\<close> builds \<open>B\<close> with the instance
  \<open>resolve\<close> of \<open>A\<close> had returned. And for every constructor, the object \<open>create\<close> returns
  is new, of that class, and its argument list has the length of the parameter array,
  with at each position what \<open>resolve\<close> of the token at that position returns in the
  state the parameters before it have left, in the order of the array.
\<close>

theorem constructor_injection:
  assumes "A \<noteq> B" and "this < ncontainers w"
    and "declared w A = []" and "bound_tokens w A = []"
    and "declared w B = [Some (TypeTok A)]" and "bound_tokens w B = []"
    and "dependencies (containers w this) (TypeTok A) = None"
    and "dependencies (containers w this) (TypeTok B) = None"
    and "instances (containers w this) (TypeTok A) = None"
    and "instances (containers w this) (TypeTok B) = None"
  shows "(\<exists>w1 w2.
     register this A Singleton w = Ok () w1 \<and> register this B Singleton w1 = Ok () w2 \<and>
     (\<forall>n. \<exists>a b w3.
        resolve (n + 9) this (TypeTok B) w2 = Ok (Ref b) w3 \<and>
        b < length (heap w3) \<and> heap w3 ! b = Obj B [Ref a] \<and>
        a < length (heap w3) \<and> heap w3 ! a = Obj A [] \<and>
        (\<forall>m rs u. run rs w3 = Some u \<longrightarrow>
           returned (resolve (m + 2) this (TypeTok A) u) = Some (Ref a) \<and>
           returned (resolve (m + 2) this (TypeTok B) u) = Some (Ref b))) \<and>
     (\<forall>n. \<exists>a w3.
        resolve (n + 4) this (TypeTok A) w2 = Ok (Ref a) w3 \<and>
        (\<forall>m. \<exists>b w4. resolve (m + 7) this (TypeTok B) w3 = Ok (Ref b) w4 \<and>
           b < length (heap w4) \<and> heap w4 ! b = Obj B [Ref a]))) \<and>
    (\<forall>n c x v x'. create n this c x = Ok v x' \<longrightarrow>
       (\<exists>r args. v = Ref r \<and> r < length (heap x') \<and> heap x' ! r = Obj c args \<and>
          length args = length (fst (getParams c x)) \<and>
          (\<forall>i < length args.
             (fst (getParams c x) ! i = None \<longrightarrow> args ! i = Undefined) \<and>
             (\<forall>u. fst (getParams c x) ! i = Some u \<longrightarrow>
                (\<exists>m xi xi'. evolves UNIV x xi \<and>
                   resolve_all (Suc m) this (take i (fst (getParams c x))) (snd (getParams c x))
                     = Ok (take i args) xi \<and>
                   resolve m this u xi = Ok (args ! i) xi')))))"
proof -
  let ?cA = "SingletonClosure this (TypeTok A) (CreateClosure this A)"
  let ?cB = "SingletonClosure this (TypeTok B) (CreateClosure this B)"
  let ?w1 = "set_dependency this (TypeTok A) ?cA w"
  let ?w2 = "set_dependency this (TypeTok B) ?cB ?w1"
  have r1: "register this A Singleton w = Ok () ?w1"
    using assms by (simp add: register_def provide_def scope_or_default_def singletonProvider_def)
  have r2: "register this B Singleton ?w1 = Ok () ?w2"
    using assms
    by (simp add: register_def provide_def scope_or_default_def singletonProvider_def
          frame_simps)
  have dA: "dependencies (containers ?w2 this) (TypeTok A) = Some ?cA"
    and dB: "dependencies (containers ?w2 this) (TypeTok B) = Some ?cB"
    and iA: "instances (containers ?w2 this) (TypeTok A) = None"
    and iB: "instances (containers ?w2 this) (TypeTok B) = None"
    and nA: "declared ?w2 A = []" "bound_tokens ?w2 A = []"
    and nB: "declared ?w2 B = [Some (TypeTok A)]" "bound_tokens ?w2 B = []"
    and ex: "this < ncontainers ?w2"
    using assms by (simp_all add: frame_simps) (simp add: set_dependency_def)
  have nine: "n + 9 = Suc (Suc (Suc (Suc (Suc (Suc (Suc (Suc (Suc n))))))))" for n by simp
  have seven: "n + 7 = Suc (Suc (Suc (Suc (Suc (Suc (Suc n))))))" for n by simp
  have four: "n + 4 = Suc (Suc (Suc (Suc n)))" for n by simp
  have two: "n + 2 = Suc (Suc n)" for n by simp
  have first: "\<exists>a b w3.
        resolve (n + 9) this (TypeTok B) ?w2 = Ok (Ref b) w3 \<and>
        b < length (heap w3) \<and> heap w3 ! b = Obj B [Ref a] \<and>
        a < length (heap w3) \<and> heap w3 ! a = Obj A [] \<and>
        (\<forall>m rs u. run rs w3 = Some u \<longrightarrow>
           returned (resolve (m + 2) this (TypeTok A) u) = Some (Ref a) \<and>
           returned (resolve (m + 2) this (TypeTok B) u) = Some (Ref b))" for n
  proof -
    let ?a = "length (heap w)"
    let ?u1 = "note_call (CreateClosure this B) (note_call ?cB ?w2)"
    let ?u5 = "set_instance this (TypeTok A) (Ref ?a)
                 ((note_call (CreateClosure this A) (note_call ?cA ?u1))
                    \<lparr>heap := heap w @ [Obj A []]\<rparr>)"
    let ?w3 = "set_instance this (TypeTok B) (Ref (Suc ?a))
                 (?u5\<lparr>heap := heap w @ [Obj A [], Obj B [Ref ?a]]\<rparr>)"
    have ra: "resolve (Suc (Suc (Suc (Suc n)))) this (TypeTok A) ?u1 = Ok (Ref ?a) ?u5"
      using resolve_leaf_singleton[of ?u1 A this n] nA dA iA by (simp add: frame_simps)
    have rb: "resolve (n + 9) this (TypeTok B) ?w2 = Ok (Ref (Suc ?a)) ?w3"
      unfolding nine using dB iB nB ra
      by (simp add: frame_simps getParams_unbound alloc_def Let_def)
    have cA: "dependencies (containers ?w3 this) (TypeTok A) = Some ?cA"
      and cB: "dependencies (containers ?w3 this) (TypeTok B) = Some ?cB"
      and vA: "instances (containers ?w3 this) (TypeTok A) = Some (Ref ?a)"
      and vB: "instances (containers ?w3 this) (TypeTok B) = Some (Ref (Suc ?a))"
      and ex3: "this < ncontainers ?w3"
      using dA dB ex assms(1)
      by (simp_all add: frame_simps) (simp add: set_instance_def note_call_def)
    have "returned (resolve (m + 2) this (TypeTok A) u) = Some (Ref ?a) \<and>
          returned (resolve (m + 2) this (TypeTok B) u) = Some (Ref (Suc ?a))"
      if "run rs ?w3 = Some u" for m rs u
      unfolding two
      using cached_stays[OF ex3 cA vA that, of m] cached_stays[OF ex3 cB vB that, of m]
      by simp
    moreover have "heap ?w3 = heap w @ [Obj A [], Obj B [Ref ?a]]"
      by (simp add: frame_simps)
    ultimately show ?thesis using rb
      by (intro exI[of _ ?a] exI[of _ "Suc ?a"] exI[of _ ?w3]) (simp add: nth_append)
  qed
  have second: "\<exists>a w3.
        resolve (n + 4) this (TypeTok A) ?w2 = Ok (Ref a) w3 \<and>
        (\<forall>m. \<exists>b w4. resolve (m + 7) this (TypeTok B) w3 = Ok (Ref b) w4 \<and>
           b < length (heap w4) \<and> heap w4 ! b = Obj B [Ref a])" for n
  proof -
    let ?a = "length (heap w)"
    let ?w3 = "set_instance this (TypeTok A) (Ref ?a)
                 ((note_call (CreateClosure this A) (note_call ?cA ?w2))
                    \<lparr>heap := heap w @ [Obj A []]\<rparr>)"
    have ra: "resolve (n + 4) this (TypeTok A) ?w2 = Ok (Ref ?a) ?w3"
      unfolding four
      using resolve_leaf_singleton[of ?w2 A this n] nA dA iA by (simp add: frame_simps)
    have "\<exists>b w4. resolve (m + 7) this (TypeTok B) ?w3 = Ok (Ref b) w4 \<and>
           b < length (heap w4) \<and> heap w4 ! b = Obj B [Ref ?a]" for m
      unfolding seven using dA dB iB nB assms(1)
      by (simp add: frame_simps getParams_unbound alloc_def Let_def get_instance_def
            nth_append)
    then show ?thesis using ra by blast
  qed
  have part1: "\<exists>w1 w2.
     register this A Singleton w = Ok () w1 \<and> register this B Singleton w1 = Ok () w2 \<and>
     (\<forall>n. \<exists>a b w3.
        resolve (n + 9) this (TypeTok B) w2 = Ok (Ref b) w3 \<and>
        b < length (heap w3) \<and> heap w3 ! b = Obj B [Ref a] \<and>
        a < length (heap w3) \<and> heap w3 ! a = Obj A [] \<and>
        (\<forall>m rs u. run rs w3 = Some u \<longrightarrow>
           returned (resolve (m + 2) this (TypeTok A) u) = Some (Ref a) \<and>
           returned (resolve (m + 2) this (TypeTok B) u) = Some (Ref b))) \<and>
     (\<forall>n. \<exists>a w3.
        resolve (n + 4) this (TypeTok A) w2 = Ok (Ref a) w3 \<and>
        (\<forall>m. \<exists>b w4. resolve (m + 7) this (TypeTok B) w3 = Ok (Ref b) w4 \<and>
           b < length (heap w4) \<and> heap w4 ! b = Obj B [Ref a]))"
    using r1 r2 first second by blast
  have part2: "\<forall>n c x v x'. create n this c x = Ok v x' \<longrightarrow>
       (\<exists>r args. v = Ref r \<and> r < length (heap x') \<and> heap x' ! r = Obj c args \<and>
          length args = length (fst (getParams c x)) \<and>
          (\<forall>i < length args.
             (fst (getParams c x) ! i = None \<longrightarrow> args ! i = Undefined) \<and>
             (\<forall>u. fst (getParams c x) ! i = Some u \<longrightarrow>
                (\<exists>m xi xi'. evolves UNIV x xi \<and>
                   resolve_all (Suc m) this (take i (fst (getParams c x))) (snd (getParams c x))
                     = Ok (take i args) xi \<and>
                   resolve m this u xi = Ok (args ! i) xi'))))"
  proof (intro allI impI)
    fix n c x v x'
    assume cr: "create n this c x = Ok v x'"
    from create_builds[OF cr] obtain m r args w2 where
      v: "v = Ref r" "r < length (heap x')" "heap x' ! r = Obj c args" and
      ra: "resolve_all m this (fst (getParams c x)) (snd (getParams c x)) = Ok args w2"
      by blast
    note ar = resolve_all_args[OF ra]
    have "\<exists>m xi xi'. evolves UNIV x xi \<and>
                   resolve_all (Suc m) this (take i (fst (getParams c x))) (snd (getParams c x))
                     = Ok (take i args) xi \<and>
                   resolve m this u xi = Ok (args ! i) xi'"
      if "i < length args" "fst (getParams c x) ! i = Some u" for i u
    proof -
      have "i < length (fst (getParams c x))" using that(1) ar by simp
      from resolve_all_nth[OF ra this that(2)] obtain m' wi wi' where
        m: "m = Suc m'" and
        tk: "resolve_all m this (take i (fst (getParams c x))) (snd (getParams c x))
               = Ok (take i args) wi" and
        rs: "resolve m' this u wi = Ok (args ! i) wi'"
        by blast
      have "evolves UNIV (snd (getParams c x)) wi"
        using tk evolves_any(4)[of m this "take i (fst (getParams c x))"
            "snd (getParams c x)" wi] by simp
      with evolves_getParams have "evolves UNIV x wi" by (rule evolves_trans)
      then show ?thesis using tk rs m by blast
    qed
    then show "\<exists>r args. v = Ref r \<and> r < length (heap x') \<and> heap x' ! r = Obj c args \<and>
          length args = length (fst (getParams c x)) \<and>
          (\<forall>i < length args.
             (fst (getParams c x) ! i = None \<longrightarrow> args ! i = Undefined) \<and>
             (\<forall>u. fst (getParams c x) ! i = Some u \<longrightarrow>
                (\<exists>m xi xi'. evolves UNIV x xi \<and>
                   resolve_all (Suc m) this (take i (fst (getParams c x))) (snd (getParams c x))
                     = Ok (take i args) xi \<and>
                   resolve m this u xi = Ok (args ! i) xi')))"
      using v ar by auto
  qed
  show ?thesis using part1 part2 by (rule conjI)
qed

theorem constructor_injection_witness:
  "returned (resolve 9 0 (TypeTok 1)
      (after (register 0 1 Singleton (after (register 0 0 Singleton demo_world)))))
     = Some (Ref 1) \<and>
   heap (after (resolve 9 0 (TypeTok 1)
      (after (register 0 1 Singleton (after (register 0 0 Singleton demo_world))))))
     = [Obj 0 [], Obj 1 [Ref 0]] \<and>
   returned (resolve 2 0 (TypeTok 0)
      (after (resolve 9 0 (TypeTok 1)
        (after (register 0 1 Singleton (after (register 0 0 Singleton demo_world)))))))
     = Some (Ref 0)"
proof -
  let ?W = "after (register 0 1 Singleton (after (register 0 0 Singleton demo_world)))"
  have h: "(0::nat) \<noteq> 1" "0 < ncontainers demo_world"
    "declared demo_world 0 = []" "bound_tokens demo_world 0 = []"
    "declared demo_world 1 = [Some (TypeTok 0)]" "bound_tokens demo_world 1 = []"
    "dependencies (containers demo_world 0) (TypeTok 0) = None"
    "dependencies (containers demo_world 0) (TypeTok 1) = None"
    "instances (containers demo_world 0) (TypeTok 0) = None"
    "instances (containers demo_world 0) (TypeTok 1) = None"
    by (simp_all add: demo_world_def initial_world_def empty_container_def declared_def
          bound_tokens_def demo_classes_def)
  from constructor_injection[OF h, THEN conjunct1] obtain w1 w2 where
    r1: "register 0 0 Singleton demo_world = Ok () w1" and
    r2: "register 0 1 Singleton w1 = Ok () w2" and
    rs: "\<forall>n. \<exists>a b w3.
        resolve (n + 9) 0 (TypeTok 1) w2 = Ok (Ref b) w3 \<and>
        b < length (heap w3) \<and> heap w3 ! b = Obj 1 [Ref a] \<and>
        a < length (heap w3) \<and> heap w3 ! a = Obj 0 [] \<and>
        (\<forall>m rs u. run rs w3 = Some u \<longrightarrow>
           returned (resolve (m + 2) 0 (TypeTok 0) u) = Some (Ref a) \<and>
           returned (resolve (m + 2) 0 (TypeTok 1) u) = Some (Ref b))"
    by blast
  have W: "?W = w2" using r1 r2 by (simp add: after_def)
  from rs[rule_format, of 0] obtain a b w3 where
    r: "resolve 9 0 (TypeTok 1) w2 = Ok (Ref b) w3" and
    hb: "heap w3 ! b = Obj 1 [Ref a]" and
    la: "\<forall>m rs u. run rs w3 = Some u \<longrightarrow>
           returned (resolve (m + 2) 0 (TypeTok 0) u) = Some (Ref a)"
    by auto
  have "returned (resolve (0 + 2) 0 (TypeTok 0) w3) = Some (Ref a)"
    using la[rule_format, of "[]" w3 0] by simp
  then have a: "returned (resolve 2 0 (TypeTok 0) w3) = Some (Ref a)"
    by (simp only: add_0)
  have w2: "w2 = set_dependency 0 (TypeTok 1) (SingletonClosure 0 (TypeTok 1) (CreateClosure 0 1))
                  (set_dependency 0 (TypeTok 0)
                     (SingletonClosure 0 (TypeTok 0) (CreateClosure 0 0)) demo_world)"
    using r1 r2 h
    by (auto simp: register_def provide_def scope_or_default_def singletonProvider_def
          frame_simps)
  have ev: "returned (resolve 9 0 (TypeTok 1) w2) = Some (Ref 1)"
    "heap (after (resolve 9 0 (TypeTok 1) w2)) = [Obj 0 [], Obj 1 [Ref 0]]"
    unfolding w2
    by (simp_all add: eval_nat_numeral set_dependency_def
        demo_world_def initial_world_def empty_container_def demo_classes_def after_def
        note_call_def alloc_def getParams_def apply_tokens_def Let_def
        get_instance_def set_instance_def)
  have "b = 1" using ev(1) r by simp
  moreover have "a = 0" using ev(2) r hb \<open>b = 1\<close> by (simp add: after_def)
  moreover have "after (resolve 9 0 (TypeTok 1) w2) = w3" using r by (simp add: after_def)
  ultimately show ?thesis unfolding W using ev a by simp
qed

subsection \<open>Containers do not see each other\<close>

lemma graft_frame:
  "note_call p (graft S cs w) = graft S cs (note_call p w)"
  "alloc ob (graft S cs w) = (fst (alloc ob w), graft S cs (snd (alloc ob w)))"
  "getParams c (graft S cs w) = (fst (getParams c w), graft S cs (snd (getParams c w)))"
  "UnregisteredTokenError (graft S cs w) t = UnregisteredTokenError w t"
  "DuplicateRegistrationError (graft S cs w) t = DuplicateRegistrationError w t"
proof -
  show "note_call p (graft S cs w) = graft S cs (note_call p w)"
    by (simp add: graft_def note_call_def)
  show "alloc ob (graft S cs w) = (fst (alloc ob w), graft S cs (snd (alloc ob w)))"
    by (simp add: graft_def alloc_def)
  show "getParams c (graft S cs w) = (fst (getParams c w), graft S cs (snd (getParams c w)))"
    by (simp add: graft_def getParams_def Let_def split: option.splits)
  show "UnregisteredTokenError (graft S cs w) t = UnregisteredTokenError w t"
    by (simp add: graft_def UnregisteredTokenError_def name_of_def split: token.splits)
  show "DuplicateRegistrationError (graft S cs w) t = DuplicateRegistrationError w t"
    by (simp add: graft_def DuplicateRegistrationError_def string_of_def split: token.splits)
qed

lemma graft_inside:
  "this \<in> S \<Longrightarrow> containers (graft S cs w) this = containers w this"
  "this \<in> S \<Longrightarrow> set_instance this t v (graft S cs w) = graft S cs (set_instance this t v w)"
  "this \<in> S \<Longrightarrow> set_dependency this t p (graft S cs w) = graft S cs (set_dependency this t p w)"
  "this \<in> S \<Longrightarrow> get_instance this t (graft S cs w) = get_instance this t w"
  by (auto simp: graft_def set_instance_def set_dependency_def get_instance_def
        fun_eq_iff override_on_def)

lemma closed_under_graft: "closed_under S (graft S cs w) = closed_under S w"
  by (simp add: closed_under_def graft_def override_on_def)

lemma final_map_world: "final (map_world f r) = map_option f (final r)"
  by (cases r) simp_all

lemma unseen_general:
  shows "closed_under S w \<Longrightarrow> this \<in> S \<Longrightarrow>
           resolve n this t (graft S cs w) = map_world (graft S cs) (resolve n this t w)"
    and "closed_under S w \<Longrightarrow> captured p \<subseteq> S \<Longrightarrow>
           call n p (graft S cs w) = map_world (graft S cs) (call n p w)"
    and "closed_under S w \<Longrightarrow> this \<in> S \<Longrightarrow>
           create n this c (graft S cs w) = map_world (graft S cs) (create n this c w)"
    and "closed_under S w \<Longrightarrow> this \<in> S \<Longrightarrow>
           resolve_all n this ps (graft S cs w) = map_world (graft S cs) (resolve_all n this ps w)"
proof (induction n this t w and n p w and n this c w and n this ps w
        rule: resolve_call_create_resolve_all.induct)
  case (1 this type w)
  show ?case by simp
next
  case (2 n this type w)
  show ?case
  proof (cases "dependencies (containers w this) type")
    case None
    then show ?thesis using "2.prems" by (simp add: graft_inside graft_frame)
  next
    case (Some q)
    then have "captured q \<subseteq> S" using "2.prems"(1,2) by (auto simp: closed_under_def)
    from "2.IH"[OF Some "2.prems"(1) this] show ?thesis
      using Some "2.prems"(2) by (simp add: graft_inside)
  qed
next
  case (3 p w)
  show ?case by simp
next
  case (4 n k w)
  show ?case by (simp add: graft_frame split: prod.splits)
next
  case (5 n v w)
  show ?case by (simp add: graft_frame)
next
  case (6 n this type w)
  have "closed_under S (note_call (CreateClosure this type) w)"
    using closed_under_evolves[OF evolves_note_call "6.prems"(1)] .
  from "6.IH"[OF this] "6.prems"(2) show ?case by (simp add: graft_frame)
next
  case (7 n this type provider w)
  define w0 where "w0 = note_call (SingletonClosure this type provider) w"
  have c0: "closed_under S w0"
    unfolding w0_def using closed_under_evolves[OF evolves_note_call "7.prems"(1)] .
  have inS: "this \<in> S" and sub: "captured provider \<subseteq> S" using "7.prems"(2) by auto
  show ?case
  proof (cases "instances (containers w0 this) type = None")
    case True
    from "7.IH"[OF w0_def True c0 sub]
    have ih: "call n provider (graft S cs w0) = map_world (graft S cs) (call n provider w0)" .
    show ?thesis
      using True ih inS
      by (cases "call n provider w0")
         (simp_all add: graft_frame graft_inside w0_def[symmetric] Let_def)
  next
    case False
    then show ?thesis using inS
      by (auto simp add: graft_frame graft_inside w0_def[symmetric] Let_def)
  qed
next
  case (8 this c w)
  show ?case by simp
next
  case (9 n this c w)
  obtain params w1 where g: "getParams c w = (params, w1)" by (cases "getParams c w")
  have "evolves S w w1" using evolves_getParams[of S w c] g by simp
  then have c1: "closed_under S w1" using "9.prems"(1) by (rule closed_under_evolves)
  from "9.IH"[OF g[symmetric] c1 "9.prems"(2)]
  have ih: "resolve_all n this params (graft S cs w1)
              = map_world (graft S cs) (resolve_all n this params w1)" .
  show ?case
    using g ih
    by (cases "resolve_all n this params w1") (simp_all add: graft_frame split: prod.splits)
next
  case (10 n this w)
  show ?case by simp
next
  case (11 n this params w)
  from "11.IH"[OF "11.prems"] show ?case
    by (cases "resolve_all n this params w") simp_all
next
  case (12 this dependency params w)
  show ?case by simp
next
  case (13 n this dependency params w)
  note ih1 = "13.IH"(1)[OF "13.prems"]
  show ?case
  proof (cases "resolve n this dependency w")
    case (Ok v w1)
    have "evolves S w w1" using evolves_resolve[OF "13.prems", of n dependency w1] Ok by simp
    then have c1: "closed_under S w1" using "13.prems"(1) by (rule closed_under_evolves)
    from "13.IH"(2)[OF Ok c1 "13.prems"(2)] ih1 Ok show ?thesis
      by (cases "resolve_all (Suc n) this params w1") simp_all
  next
    case (Throw e w1)
    then show ?thesis using ih1 by simp
  next
    case Diverge
    then show ?thesis using ih1 by simp
  qed
qed

lemma provide_frame:
  "c1 \<noteq> c2 \<Longrightarrow> final (provide c1 t p s w) = Some u \<Longrightarrow> containers u c2 = containers w c2"
  by (auto simp: provide_def set_dependency_def split: if_splits scope.splits)

lemma provide_unseen:
  "c1 \<in> S \<Longrightarrow> provide c1 t p s (graft S cs w) = map_world (graft S cs) (provide c1 t p s w)"
  by (simp add: provide_def graft_inside graft_frame split: scope.splits)

lemma closed_under_provide:
  assumes "closed_under S w" and "c1 \<in> S" and "captured p \<subseteq> S"
    and "final (provide c1 t p s w) = Some u"
  shows "closed_under S u"
proof -
  have "closed_under S (set_dependency c1 t q w)" if "captured q \<subseteq> S" for q
    using assms(1) that unfolding closed_under_def
    by (auto simp: dependencies_frame split: if_splits)
  from this[of p] this[of "singletonProvider c1 t p"] assms show ?thesis
    by (auto simp: provide_def singletonProvider_def split: if_splits scope.splits)
qed

lemma perform_heap: "perform r w = Some u \<Longrightarrow> \<exists>os. heap u = heap w @ os"
proof (cases r)
  case (Resolve n c t)
  assume "perform r w = Some u"
  then show ?thesis using Resolve evolves_any(1)[of n c t w u]
    by (auto split: if_splits dest!: evolves_heap)
next
  case (Provide c t p s)
  assume "perform r w = Some u"
  then show ?thesis using Provide
    by (auto simp: provide_def set_dependency_def split: if_splits scope.splits)
next
  case (Register c k sc)
  assume "perform r w = Some u"
  then show ?thesis using Register
    by (auto simp: register_def provide_def set_dependency_def split: if_splits scope.splits)
next
  case NewContainer
  assume "perform r w = Some u"
  then show ?thesis using NewContainer by (auto simp: newContainer_def)
qed

lemma run_heap: "run rs w = Some u \<Longrightarrow> \<exists>os. heap u = heap w @ os"
proof (induction rs arbitrary: w)
  case Nil
  then show ?case by simp
next
  case (Cons r rs)
  then obtain w1 where p: "perform r w = Some w1" and r: "run rs w1 = Some u"
    by (auto split: option.splits)
  from perform_heap[OF p] Cons.IH[OF r] show ?case by auto
qed

lemma singleton_create_fresh:
  assumes "dependencies (containers w this) t
             = Some (SingletonClosure this t (CreateClosure this k))"
    and "instances (containers w this) t = None"
    and "resolve n this t w = Ok v w'"
  shows "\<exists>r. v = Ref r \<and> length (heap w) \<le> r \<and> r < length (heap w')"
proof -
  obtain n1 where n1: "n = Suc n1" using assms(3) by (cases n) auto
  obtain n2 where n2: "n1 = Suc n2" using assms n1 by (cases n1) auto
  let ?w0 = "note_call (SingletonClosure this t (CreateClosure this k)) w"
  from assms n1 n2 obtain w1 where
    c: "call n2 (CreateClosure this k) ?w0 = Ok v w1" and w': "w' = set_instance this t v w1"
    by (auto simp: frame_simps Let_def split: result.splits)
  from call_fresh[OF _ c] show ?thesis using w' by (simp add: frame_simps)
qed

text \<open>
  C8. \<open>newContainer\<close> makes a container that did not exist, with an empty registry and an
  empty cache, and leaves the others as they were. \<open>provide\<close> and \<open>register\<close> on one
  container change no other container and read none: with other containers in place of
  the others they do the same. So does \<open>resolve\<close>, on a container whose registry holds
  closures over that container, or over a set \<open>S\<close> of containers, only; and that holds of
  a new container, and stays so under \<open>register\<close>, and under \<open>provide\<close> of a provider
  that captures no container outside. A type registered with scope \<open>Singleton\<close> by
  \<open>register\<close> in two containers and not yet cached in them gets two instances: what
  \<open>resolve\<close> returns in one differs from what \<open>resolve\<close> returns in the other; and for a
  type of no parameter both return.
\<close>

theorem containers_isolated:
  "(newContainer w = (c, w') \<longrightarrow>
      c = ncontainers w \<and> ncontainers w' = Suc c \<and>
      dependencies (containers w' c) = Map.empty \<and> instances (containers w' c) = Map.empty \<and>
      (\<forall>c'. c' \<noteq> c \<longrightarrow> containers w' c' = containers w c') \<and>
      closed_under {c} w') \<and>
   (ca \<noteq> cb \<longrightarrow>
      (final (provide ca t p s w) = Some u \<longrightarrow> containers u cb = containers w cb) \<and>
      (final (register ca k sc w) = Some u \<longrightarrow> containers u cb = containers w cb)) \<and>
   (ca \<in> S \<longrightarrow>
      provide ca t p s (graft S cs w) = map_world (graft S cs) (provide ca t p s w) \<and>
      register ca k sc (graft S cs w) = map_world (graft S cs) (register ca k sc w)) \<and>
   (closed_under S w \<longrightarrow> ca \<in> S \<longrightarrow>
      (cb \<notin> S \<longrightarrow> final (resolve n ca t w) = Some u \<longrightarrow> containers u cb = containers w cb) \<and>
      resolve n ca t (graft S cs w) = map_world (graft S cs) (resolve n ca t w) \<and>
      (final (resolve n ca t w) = Some u \<longrightarrow> closed_under S u) \<and>
      (final (register ca k sc w) = Some u \<longrightarrow> closed_under S u) \<and>
      (captured p \<subseteq> S \<longrightarrow> final (provide ca t p s w) = Some u \<longrightarrow> closed_under S u)) \<and>
   (ca \<noteq> cb \<longrightarrow> cb < ncontainers w \<longrightarrow>
    dependencies (containers w ca) (TypeTok k)
      = Some (singletonProvider ca (TypeTok k) (CreateClosure ca k)) \<longrightarrow>
    dependencies (containers w cb) (TypeTok k)
      = Some (singletonProvider cb (TypeTok k) (CreateClosure cb k)) \<longrightarrow>
    instances (containers w ca) (TypeTok k) = None \<longrightarrow>
    instances (containers w cb) (TypeTok k) = None \<longrightarrow>
      (\<forall>v1 w1 rs x m v2 w2.
         resolve n ca (TypeTok k) w = Ok v1 w1 \<longrightarrow> run rs w1 = Some x \<longrightarrow>
         instances (containers x cb) (TypeTok k) = None \<longrightarrow>
         resolve m cb (TypeTok k) x = Ok v2 w2 \<longrightarrow> v1 \<noteq> v2) \<and>
      (declared w k = [] \<longrightarrow> bound_tokens w k = [] \<longrightarrow>
         (\<exists>w1 w2. resolve (n + 4) ca (TypeTok k) w = Ok (Ref (length (heap w))) w1 \<and>
                  resolve (m + 4) cb (TypeTok k) w1 = Ok (Ref (Suc (length (heap w)))) w2)))"
proof (intro conjI impI allI)
  assume nc: "newContainer w = (c, w')"
  then show "c = ncontainers w" "ncontainers w' = Suc c"
    "dependencies (containers w' c) = Map.empty" "instances (containers w' c) = Map.empty"
    by (auto simp: newContainer_def empty_container_def)
  show "containers w' c' = containers w c'" if "c' \<noteq> c" for c'
    using nc that by (auto simp: newContainer_def)
  show "closed_under {c} w'"
    using nc by (auto simp: newContainer_def empty_container_def closed_under_def)
next
  assume "ca \<noteq> cb"
  then show "containers u cb = containers w cb" if "final (provide ca t p s w) = Some u"
    using that by (rule provide_frame)
  show "containers u cb = containers w cb" if "final (register ca k sc w) = Some u"
    using that \<open>ca \<noteq> cb\<close> unfolding register_def by (rule provide_frame[rotated])
next
  assume "ca \<in> S"
  then show "provide ca t p s (graft S cs w) = map_world (graft S cs) (provide ca t p s w)"
    and "register ca k sc (graft S cs w) = map_world (graft S cs) (register ca k sc w)"
    unfolding register_def by (rule provide_unseen)+
next
  assume cl: "closed_under S w" and inS: "ca \<in> S"
  show "containers u cb = containers w cb"
    if "cb \<notin> S" and "final (resolve n ca t w) = Some u"
    using evolves_resolve[OF cl inS that(2)] that(1) by (simp add: evolves_def)
  show "resolve n ca t (graft S cs w) = map_world (graft S cs) (resolve n ca t w)"
    using cl inS by (rule unseen_general(1))
  show "closed_under S u" if "final (resolve n ca t w) = Some u"
    using evolves_resolve[OF cl inS that] cl by (rule closed_under_evolves)
  show "closed_under S u" if "final (register ca k sc w) = Some u"
    using closed_under_provide[OF cl inS _ that[unfolded register_def]] inS by simp
  show "closed_under S u" if "captured p \<subseteq> S" and "final (provide ca t p s w) = Some u"
    using closed_under_provide[OF cl inS that] .
next
  fix v1 w1 rs x m v2 w2
  assume ne: "ca \<noteq> cb" and ex: "cb < ncontainers w"
    and d1: "dependencies (containers w ca) (TypeTok k)
      = Some (singletonProvider ca (TypeTok k) (CreateClosure ca k))"
    and d2: "dependencies (containers w cb) (TypeTok k)
      = Some (singletonProvider cb (TypeTok k) (CreateClosure cb k))"
    and i1: "instances (containers w ca) (TypeTok k) = None"
    and i2: "instances (containers w cb) (TypeTok k) = None"
    and r1: "resolve n ca (TypeTok k) w = Ok v1 w1" and re: "run rs w1 = Some x"
    and ix: "instances (containers x cb) (TypeTok k) = None"
    and r2: "resolve m cb (TypeTok k) x = Ok v2 w2"
  from singleton_create_fresh[OF d1[unfolded singletonProvider_def] i1 r1]
  obtain a where a: "v1 = Ref a" "a < length (heap w1)" by blast
  have e: "evolves UNIV w w1" using r1 evolves_any(1)[of n ca "TypeTok k" w w1] by simp
  then have "later w w1" by (rule evolves_later)
  then have "later w x" using run_later[OF re] by (rule later_trans)
  then have dx: "dependencies (containers x cb) (TypeTok k)
      = Some (SingletonClosure cb (TypeTok k) (CreateClosure cb k))"
    using d2 ex by (auto simp: later_def singletonProvider_def)
  from singleton_create_fresh[OF dx ix r2]
  obtain b where b: "v2 = Ref b" "length (heap x) \<le> b" by blast
  from run_heap[OF re] obtain os where "heap x = heap w1 @ os" by blast
  then show "v1 \<noteq> v2" using a b by auto
next
  assume ne: "ca \<noteq> cb"
    and d1: "dependencies (containers w ca) (TypeTok k)
      = Some (singletonProvider ca (TypeTok k) (CreateClosure ca k))"
    and d2: "dependencies (containers w cb) (TypeTok k)
      = Some (singletonProvider cb (TypeTok k) (CreateClosure cb k))"
    and i1: "instances (containers w ca) (TypeTok k) = None"
    and i2: "instances (containers w cb) (TypeTok k) = None"
    and dk: "declared w k = []" and bk: "bound_tokens w k = []"
  let ?cl = "SingletonClosure ca (TypeTok k) (CreateClosure ca k)"
  let ?w1 = "set_instance ca (TypeTok k) (Ref (length (heap w)))
                 ((note_call (CreateClosure ca k) (note_call ?cl w))
                  \<lparr>heap := heap w @ [Obj k []]\<rparr>)"
  have four: "j + 4 = Suc (Suc (Suc (Suc j)))" for j by simp
  have a: "resolve (n + 4) ca (TypeTok k) w = Ok (Ref (length (heap w))) ?w1"
    unfolding four
    using resolve_leaf_singleton[OF dk bk d1[unfolded singletonProvider_def] i1] .
  have "declared ?w1 k = []" "bound_tokens ?w1 k = []"
    "dependencies (containers ?w1 cb) (TypeTok k)
       = Some (SingletonClosure cb (TypeTok k) (CreateClosure cb k))"
    "instances (containers ?w1 cb) (TypeTok k) = None"
    using dk bk d2 i2 ne by (simp_all add: frame_simps singletonProvider_def)
  from resolve_leaf_singleton[OF this, of m]
  have "\<exists>w2. resolve (m + 4) cb (TypeTok k) ?w1 = Ok (Ref (Suc (length (heap w)))) w2"
    unfolding four by (simp add: frame_simps)
  then show "\<exists>w1 w2. resolve (n + 4) ca (TypeTok k) w = Ok (Ref (length (heap w))) w1 \<and>
                  resolve (m + 4) cb (TypeTok k) w1 = Ok (Ref (Suc (length (heap w)))) w2"
    using a by blast
qed

theorem containers_isolated_witness:
  "fst (newContainer demo_world) = 1 \<and>
   dependencies (containers (snd (newContainer demo_world)) 1) (TypeTok 0) = None \<and>
   fst (newContainer (snd (newContainer demo_world))) = 2 \<and>
   returned (resolve 4 1 (TypeTok 0) demo_two) = Some (Ref 0) \<and>
   returned (resolve 4 2 (TypeTok 0) (after (resolve 4 1 (TypeTok 0) demo_two))) = Some (Ref 1) \<and>
   containers (after (resolve 4 1 (TypeTok 0) demo_two)) 2 = containers demo_two 2"
proof -
  let ?t = "TypeTok 0"
  let ?c = "\<lambda>i. SingletonClosure i ?t (CreateClosure i 0)"
  note defs = demo_two_def newContainer_def register_def provide_def after_def
          demo_world_def initial_world_def empty_container_def scope_or_default_def
          set_dependency_def singletonProvider_def
  have n1: "newContainer demo_world = (1, snd (newContainer demo_world))"
    and n1f: "fst (newContainer demo_world) = 1"
    and n2: "fst (newContainer (snd (newContainer demo_world))) = 2"
    by (simp_all add: newContainer_def demo_world_def initial_world_def)
  have h: "(1::nat) \<noteq> 2" "2 < ncontainers demo_two"
    "dependencies (containers demo_two 1) ?t = Some (singletonProvider 1 ?t (CreateClosure 1 0))"
    "dependencies (containers demo_two 2) ?t = Some (singletonProvider 2 ?t (CreateClosure 2 0))"
    "instances (containers demo_two 1) ?t = None" "instances (containers demo_two 2) ?t = None"
    "declared demo_two 0 = []" "bound_tokens demo_two 0 = []"
    by (simp_all add: defs declared_def bound_tokens_def demo_classes_def)
  have cl: "closed_under {1} demo_two" "(1::nat) \<in> {1}" "(2::nat) \<notin> {1}"
    by (simp_all add: closed_under_def defs)
  note th = containers_isolated[where w = demo_two and ca = 1 and cb = 2 and k = 0
      and S = "{1}" and n = 0 and m = 0 and t = ?t]
  note tn = containers_isolated[where w = demo_world and c = 1
      and w' = "snd (newContainer demo_world)"]
  from tn n1 have e: "dependencies (containers (snd (newContainer demo_world)) 1) = Map.empty"
    by blast
  from th h obtain w1 w2 where
    r1: "resolve (0 + 4) 1 ?t demo_two = Ok (Ref (length (heap demo_two))) w1" and
    r2: "resolve (0 + 4) 2 ?t w1 = Ok (Ref (Suc (length (heap demo_two)))) w2"
    by blast
  have hp: "heap demo_two = []"
    by (simp add: defs)
  have a: "after (resolve 4 1 ?t demo_two) = w1" using r1 by (simp add: after_def)
  have "final (resolve (0 + 4) 1 ?t demo_two) = Some w1" using r1 by simp
  with cl have "containers w1 2 = containers demo_two 2"
    using containers_isolated[where w = demo_two and ca = 1 and cb = 2 and S = "{1}"
        and n = "0 + 4" and t = ?t and u = w1]
    by blast
  then show ?thesis
    unfolding a using n1f n2 r1 r2 hp e by simp
qed

end
